theory Spec2Isabelle
  imports Main "HOL-Library.List_Lexorder" "HOL-Library.Product_Lexorder" "HOL-Library.Sublist"
    "HOL-Library.AList" "HOL-Library.Multiset"
begin

section \<open>Python strings\<close>

text \<open>
  A Python \<^verbatim>\<open>str\<close> is a sequence of Unicode code points, and the converter counts code
  points (\<^verbatim>\<open>len(p_text.strip()) < 3\<close>) and searches for Chinese words, so a string is
  modelled as a list of code points. \<open>py\<close> turns an ASCII literal into such a list; a
  non-ASCII literal of the source is written as the list of its code points.
\<close>

type_synonym pystr = "nat list"

definition py :: "string \<Rightarrow> pystr" where
  "py s = map of_char s"

text \<open>
  \<^verbatim>\<open>str.isspace\<close>, which is also the class \<^verbatim>\<open>\s\<close> of \<^verbatim>\<open>re\<close> on a \<^verbatim>\<open>str\<close> pattern:
  U+0009..U+000D, U+001C..U+0020, U+0085, U+00A0, U+1680, U+2000..U+200A, U+2028, U+2029,
  U+202F, U+205F, U+3000.
\<close>

definition is_space :: "nat \<Rightarrow> bool" where
  "is_space c = (c \<in> {9, 10, 11, 12, 13, 28, 29, 30, 31, 32, 133, 160, 5760, 8232, 8233, 8239, 8287, 12288}
     \<or> (8192 \<le> c \<and> c \<le> 8202))"

definition strip :: "pystr \<Rightarrow> pystr" where
  "strip s = rev (dropWhile is_space (rev (dropWhile is_space s)))"

definition startswith :: "pystr \<Rightarrow> pystr \<Rightarrow> bool" where
  "startswith s p = prefix p s"

text \<open>\<^verbatim>\<open>p in s\<close> for two strings.\<close>

fun str_in :: "pystr \<Rightarrow> pystr \<Rightarrow> bool" where
  "str_in p [] = (p = [])"
| "str_in p (c # cs) = (prefix p (c # cs) \<or> str_in p cs)"

text \<open>\<^verbatim>\<open>sep.join(xs)\<close>.\<close>

fun join :: "pystr \<Rightarrow> pystr list \<Rightarrow> pystr" where
  "join sep [] = []"
| "join sep [x] = x"
| "join sep (x # y # ys) = x @ sep @ join sep (y # ys)"

text \<open>\<^verbatim>\<open>str(n)\<close> for a non-negative integer, as the f-strings of the source format it.\<close>

fun str_nat :: "nat \<Rightarrow> pystr" where
  "str_nat n = (if n < 10 then [48 + n] else str_nat (n div 10) @ [48 + n mod 10])"

declare str_nat.simps [simp del]

text \<open>
  \<^verbatim>\<open>s.replace(old, new)\<close>: the occurrences of \<open>old\<close> are found from the left and do not
  overlap; an empty \<open>old\<close> matches before every character and at the end.
\<close>

function replace :: "pystr \<Rightarrow> pystr \<Rightarrow> pystr \<Rightarrow> pystr" where
  "replace old new s =
     (if old = [] then new @ concat (map (\<lambda>c. c # new) s)
      else if s = [] then []
      else if prefix old s then new @ replace old new (drop (length old) s)
      else hd s # replace old new (tl s))"
  by pat_completeness auto
termination
  by (relation "measure (\<lambda>(old, new, s). length s)") (auto simp: neq_Nil_conv)

declare replace.simps [simp del]

text \<open>
  \<^verbatim>\<open>str.lower\<close> on the ASCII letters. The source compares the lowered file extension with
  five ASCII constants only, and no code point outside ASCII lowers to one of their
  letters, so the comparison sees the same result.
\<close>

definition lower :: "pystr \<Rightarrow> pystr" where
  "lower s = map (\<lambda>c. if 65 \<le> c \<and> c \<le> 90 then c + 32 else c) s"

text \<open>The exceptions that the modelled code can raise.\<close>

datatype error = ValueError | OSError | UnicodeDecodeError

section \<open>Date Extractor\<close>

text \<open>
  A \<^verbatim>\<open>datetime\<close> at midnight is a triple (year, month, day); the lexicographic order on
  triples is the chronological order that \<^verbatim>\<open>list.sort\<close> compares the keys with.
\<close>

type_synonym date = "nat \<times> nat \<times> nat"

text \<open>
  The class \<^verbatim>\<open>\d\<close> of a \<^verbatim>\<open>str\<close> pattern is the Unicode category Nd, and \<^verbatim>\<open>int\<close> accepts the
  same digits. Every run of ten decimal digits of Unicode 14 (the table of Python 3.11)
  starts at one of \<open>nd_starts\<close>, with the values 0 to 9 in order.
\<close>

definition nd_starts :: "nat list" where
  "nd_starts = [48, 1632, 1776, 1984, 2406, 2534, 2662, 2790, 2918, 3046, 3174, 3302, 3430,
     3558, 3664, 3792, 3872, 4160, 4240, 6112, 6160, 6470, 6608, 6784, 6800, 6992, 7088, 7232,
     7248, 42528, 43216, 43264, 43472, 43504, 43600, 44016, 65296, 66720, 68912, 69734, 69872,
     69942, 70096, 70384, 70736, 70864, 71248, 71360, 71472, 71904, 72016, 72784, 73040, 73120,
     92768, 92864, 93008, 120782, 120792, 120802, 120812, 120822, 123200, 123632, 125264,
     130032]"

definition digit_value :: "nat \<Rightarrow> nat option" where
  "digit_value c = map_option (\<lambda>b. c - b) (find (\<lambda>b. b \<le> c \<and> c < b + 10) nd_starts)"

definition is_digit :: "nat \<Rightarrow> bool" where
  "is_digit c = (digit_value c \<noteq> None)"

definition int_of_digits :: "pystr \<Rightarrow> nat" where
  "int_of_digits ds = foldl (\<lambda>n c. 10 * n + (case digit_value c of Some v \<Rightarrow> v | None \<Rightarrow> 0)) 0 ds"

definition is_hyphen :: "nat \<Rightarrow> bool" where
  "is_hyphen c = (c = 45)"

text \<open>The pattern \<^verbatim>\<open>\d{4}-\d{2}-\d{2}\<close>, one character class for each of its ten positions.\<close>

definition date_shape :: "(nat \<Rightarrow> bool) list" where
  "date_shape = [is_digit, is_digit, is_digit, is_digit, is_hyphen, is_digit, is_digit, is_hyphen,
     is_digit, is_digit]"

definition matches_shape :: "(nat \<Rightarrow> bool) list \<Rightarrow> pystr \<Rightarrow> bool" where
  "matches_shape sh t = list_all2 (\<lambda>p c. p c) sh t"

text \<open>
  \<^verbatim>\<open>re.search(r'(\d{4}-\d{2}-\d{2})', s)\<close>: the group of the leftmost match, \<open>None\<close> when
  nothing matches.
\<close>

fun re_search_date :: "pystr \<Rightarrow> pystr option" where
  "re_search_date [] = None"
| "re_search_date (c # cs) =
     (if matches_shape date_shape (take 10 (c # cs)) then Some (take 10 (c # cs))
      else re_search_date cs)"

definition is_leap :: "nat \<Rightarrow> bool" where
  "is_leap y = (y mod 4 = 0 \<and> (y mod 100 \<noteq> 0 \<or> y mod 400 = 0))"

definition days_in_month :: "nat \<Rightarrow> nat \<Rightarrow> nat" where
  "days_in_month y m =
     (if m = 2 then (if is_leap y then 29 else 28)
      else if m = 4 \<or> m = 6 \<or> m = 9 \<or> m = 11 then 30 else 31)"

definition in_range :: "nat \<Rightarrow> nat \<Rightarrow> nat \<Rightarrow> bool" where
  "in_range lo hi c = (lo \<le> c \<and> c \<le> hi)"

text \<open>
  \<^verbatim>\<open>datetime.strptime(s, '%Y-%m-%d')\<close>. The library turns the format into the regular
  expression \<^verbatim>\<open>(\d\d\d\d)-(1[0-2]|0[1-9]|[1-9])-(3[0-1]|[1-2]\d|0[1-9]|[1-9]| [1-9])\<close>, takes
  the first alternative that matches, raises \<^verbatim>\<open>ValueError\<close> when the expression does not
  match or leaves text over, and raises it again when the numbers are no calendar date
  (year 0, 30 February). \<open>parse_month\<close> and \<open>parse_day\<close> are the two groups with what
  they leave unread.
\<close>

fun parse_month :: "pystr \<Rightarrow> (nat \<times> pystr) option" where
  "parse_month (a # b # r) =
     (if a = 49 \<and> in_range 48 50 b then Some (10 + (b - 48), r)
      else if a = 48 \<and> in_range 49 57 b then Some (b - 48, r)
      else if in_range 49 57 a then Some (a - 48, b # r)
      else None)"
| "parse_month [a] = (if in_range 49 57 a then Some (a - 48, []) else None)"
| "parse_month [] = None"

fun parse_day :: "pystr \<Rightarrow> (nat \<times> pystr) option" where
  "parse_day (a # b # r) =
     (if a = 51 \<and> in_range 48 49 b then Some (30 + (b - 48), r)
      else if in_range 49 50 a \<and> is_digit b then Some (int_of_digits [a, b], r)
      else if a = 48 \<and> in_range 49 57 b then Some (b - 48, r)
      else if in_range 49 57 a then Some (a - 48, b # r)
      else if a = 32 \<and> in_range 49 57 b then Some (b - 48, r)
      else None)"
| "parse_day [a] = (if in_range 49 57 a then Some (a - 48, []) else None)"
| "parse_day [] = None"

definition make_date :: "nat \<Rightarrow> nat \<Rightarrow> nat \<Rightarrow> error + date" where
  "make_date y m d =
     (if 1 \<le> y \<and> y \<le> 9999 \<and> 1 \<le> m \<and> m \<le> 12 \<and> 1 \<le> d \<and> d \<le> days_in_month y m
      then Inr (y, m, d) else Inl ValueError)"

definition strptime :: "pystr \<Rightarrow> error + date" where
  "strptime s =
     (if length s < 5 \<or> \<not> list_all is_digit (take 4 s) \<or> s ! 4 \<noteq> 45 then Inl ValueError
      else case parse_month (drop 5 s) of
        None \<Rightarrow> Inl ValueError
      | Some (m, r) \<Rightarrow>
          (case r of
             [] \<Rightarrow> Inl ValueError
           | h # r' \<Rightarrow>
               if h \<noteq> 45 then Inl ValueError
               else (case parse_day r' of
                 None \<Rightarrow> Inl ValueError
               | Some (d, rest) \<Rightarrow>
                   if rest \<noteq> [] then Inl ValueError
                   else make_date (int_of_digits (take 4 s)) m d)))"

text \<open>
  \<^verbatim>\<open>extract_date_from_dirname\<close> (source lines 76 to 84). The \<^verbatim>\<open>except ValueError\<close> clause
  catches that exception only; the default date is itself parsed with \<^verbatim>\<open>strptime\<close>.
\<close>

definition extract_date_from_dirname :: "pystr \<Rightarrow> error + date" where
  "extract_date_from_dirname dirname =
     (case re_search_date dirname of
        Some g \<Rightarrow>
          (case strptime g of
             Inr d \<Rightarrow> Inr d
           | Inl ValueError \<Rightarrow> strptime (py ''2000-01-01'')
           | Inl e \<Rightarrow> Inl e)
      | None \<Rightarrow> strptime (py ''2000-01-01''))"

section \<open>The document tree\<close>

text \<open>
  The tree that \<^verbatim>\<open>BeautifulSoup(markup, 'lxml')\<close> builds: text, comments (a comment node
  holds the text between \<^verbatim>\<open><!--\<close> and \<^verbatim>\<open>-->\<close>, without the two markers) and elements with
  their attributes in document order. The soup object itself is the element named
  \<^verbatim>\<open>[document]\<close>. The value of a \<^verbatim>\<open>class\<close> attribute stands for the list of its
  whitespace-separated names.
\<close>

datatype node = Text pystr | Comment pystr | Element pystr "(pystr \<times> pystr) list" "node list"

type_synonym attrs = "(pystr \<times> pystr) list"

definition has_tag :: "pystr list \<Rightarrow> node \<Rightarrow> bool" where
  "has_tag names n = (case n of Element t a cs \<Rightarrow> t \<in> set names | _ \<Rightarrow> False)"

definition attr_get :: "node \<Rightarrow> pystr \<Rightarrow> pystr option" where
  "attr_get n k = (case n of Element t a cs \<Rightarrow> map_of a k | _ \<Rightarrow> None)"

text \<open>\<^verbatim>\<open>tag.get(k, '')\<close> on the attribute dictionary.\<close>

definition get_attr :: "attrs \<Rightarrow> pystr \<Rightarrow> pystr" where
  "get_attr a k = (case map_of a k of Some v \<Rightarrow> v | None \<Rightarrow> [])"

text \<open>The nodes below a node, in document order; \<^verbatim>\<open>find_all\<close> and \<^verbatim>\<open>find\<close> search them.\<close>

fun descendants :: "node \<Rightarrow> node list" where
  "descendants (Text s) = []"
| "descendants (Comment s) = []"
| "descendants (Element t a cs) = concat (map (\<lambda>c. c # descendants c) cs)"

definition find_all :: "pystr list \<Rightarrow> node \<Rightarrow> node list" where
  "find_all names soup = filter (has_tag names) (descendants soup)"

definition find_tag :: "pystr list \<Rightarrow> node \<Rightarrow> node option" where
  "find_tag names soup = find (has_tag names) (descendants soup)"

text \<open>\<^verbatim>\<open>get_text()\<close> and \<^verbatim>\<open>.text\<close>: the text nodes below, joined; comments are left out.\<close>

fun get_text :: "node \<Rightarrow> pystr" where
  "get_text (Text s) = s"
| "get_text (Comment s) = []"
| "get_text (Element t a cs) = concat (map get_text cs)"

text \<open>
  \<^verbatim>\<open>str(tag)\<close> with the default formatter: \<^verbatim>\<open>&\<close>, \<^verbatim>\<open><\<close> and \<^verbatim>\<open>>\<close> become entities in text
  and in attribute values; an attribute value is quoted with double quotes, or with
  single quotes when it holds a double quote and no single one; the attributes are
  written in the order of their names; an element with no children whose name is a void
  element of the tree builder is closed with \<^verbatim>\<open>/>\<close>. The text of script and style elements
  is written unescaped by the library; the converter removes these elements before it
  serialises anything, so that case is not modelled.
\<close>

fun escape :: "pystr \<Rightarrow> pystr" where
  "escape [] = []"
| "escape (c # cs) =
     (if c = 38 then py ''&amp;'' else if c = 60 then py ''&lt;'' else if c = 62 then py ''&gt;''
      else [c]) @ escape cs"

definition quoted_attribute_value :: "pystr \<Rightarrow> pystr" where
  "quoted_attribute_value v =
     (if 34 \<in> set v then
        (if 39 \<in> set v then [34] @ concat (map (\<lambda>c. if c = 34 then py ''&quot;'' else [c]) v) @ [34]
         else [39] @ v @ [39])
      else [34] @ v @ [34])"

definition str_attrs :: "attrs \<Rightarrow> pystr" where
  "str_attrs a =
     concat (map (\<lambda>(k, v). [32] @ k @ [61] @ quoted_attribute_value (escape v)) (sort_key fst a))"

definition void_tags :: "pystr list" where
  "void_tags = map py [''area'', ''base'', ''br'', ''col'', ''embed'', ''hr'', ''img'', ''input'',
     ''keygen'', ''link'', ''menuitem'', ''meta'', ''param'', ''source'', ''track'', ''wbr'',
     ''basefont'', ''bgsound'', ''command'', ''frame'', ''image'', ''isindex'', ''nextid'',
     ''spacer'']"

fun str_node :: "node \<Rightarrow> pystr" where
  "str_node (Text s) = escape s"
| "str_node (Comment s) = py ''<!--'' @ s @ py ''-->''"
| "str_node (Element t a cs) =
     (if cs = [] \<and> t \<in> set void_tags then [60] @ t @ str_attrs a @ py ''/>''
      else [60] @ t @ str_attrs a @ [62] @ concat (map str_node cs) @ py ''</'' @ t @ [62])"

text \<open>\<^verbatim>\<open>str(soup)\<close>: the soup object writes its children only.\<close>

definition str_soup :: "node \<Rightarrow> pystr" where
  "str_soup soup = (case soup of Element t a cs \<Rightarrow> concat (map str_node cs) | n \<Rightarrow> str_node n)"

text \<open>
  \<^verbatim>\<open>BeautifulSoup(str(d), 'lxml')\<close> for a subtree \<open>d\<close> that the parser built: the converter
  serialises a subtree and parses the text again three times (source lines 113, 144 and
  125). Parsing what was just serialised gives the same tree back; the parser wraps a
  fragment in \<^verbatim>\<open>html\<close> and \<^verbatim>\<open>body\<close>. The model keeps the tree and adds the wrapper.
\<close>

definition soup_of_fragment :: "node \<Rightarrow> node" where
  "soup_of_fragment d =
     Element (py ''[document]'') [] [Element (py ''html'') [] [Element (py ''body'') [] [d]]]"

text \<open>
  \<^verbatim>\<open>for x in soup.find_all(...): x.decompose()\<close> (or \<^verbatim>\<open>x.extract()\<close>): every node below the
  soup that the search matches leaves the tree, with everything under it.
\<close>

fun remove_where :: "(node \<Rightarrow> bool) \<Rightarrow> node \<Rightarrow> node" where
  "remove_where P (Text s) = Text s"
| "remove_where P (Comment s) = Comment s"
| "remove_where P (Element t a cs) = Element t a (map (remove_where P) (filter (\<lambda>c. \<not> P c) cs))"

text \<open>
  Where one element of a search result has to be told from another (the paragraph list
  of the Footer Stripper), an element is named by its position: the child indices on the
  way down from the soup. \<open>positions\<close> is \<^verbatim>\<open>find_all\<close> with the position of each match,
  \<open>decompose_at\<close> is \<^verbatim>\<open>decompose()\<close> on the element at a position.
\<close>

fun positions :: "pystr list \<Rightarrow> node \<Rightarrow> (nat list \<times> node) list"
  and positions_list :: "pystr list \<Rightarrow> nat \<Rightarrow> node list \<Rightarrow> (nat list \<times> node) list" where
  "positions names (Text s) = []"
| "positions names (Comment s) = []"
| "positions names (Element t a cs) = positions_list names 0 cs"
| "positions_list names i [] = []"
| "positions_list names i (c # cs) =
     (if has_tag names c then [([i], c)] else []) @
     map (\<lambda>(q, n). (i # q, n)) (positions names c) @
     positions_list names (Suc i) cs"

fun decompose_at :: "nat list \<Rightarrow> node \<Rightarrow> node"
  and decompose_list :: "nat \<Rightarrow> nat list \<Rightarrow> node list \<Rightarrow> node list" where
  "decompose_at q (Text s) = Text s"
| "decompose_at q (Comment s) = Comment s"
| "decompose_at q (Element t a cs) = Element t a (decompose_list 0 q cs)"
| "decompose_list i q [] = []"
| "decompose_list i q (c # cs) =
     (case q of
        [] \<Rightarrow> c # cs
      | j # r \<Rightarrow>
          if j = i then (if r = [] then cs else decompose_at r c # cs)
          else c # decompose_list (Suc i) q cs)"

text \<open>A change of attributes applied to every element of a tree, by tag name.\<close>

fun map_attrs :: "(pystr \<Rightarrow> attrs \<Rightarrow> attrs) \<Rightarrow> node \<Rightarrow> node" where
  "map_attrs f (Text s) = Text s"
| "map_attrs f (Comment s) = Comment s"
| "map_attrs f (Element t a cs) = Element t (f t a) (map (map_attrs f) cs)"

section \<open>Footer Stripper\<close>

text \<open>
  \<^verbatim>\<open>_remove_footer_elements\<close> (source lines 185 to 249). The first pattern of
  \<^verbatim>\<open>email_patterns\<close> is the regular expression \<^verbatim>\<open>\[email[^\]]*\]\<close>: the text \<^verbatim>\<open>[email\<close>
  with a closing bracket somewhere after it. The others are plain texts, so \<^verbatim>\<open>re.search\<close>
  is the substring test: U+90AE U+7BB1 (mailbox), \<^verbatim>\<open>@\<close> and \<^verbatim>\<open>__cf_email__\<close>. The author
  patterns are \<^verbatim>\<open>Buddhavamsa\<close>, its Chinese transcription U+5E03 U+8FBE U+6587 U+8428,
  U+516C U+4F17 U+53F7 (public account) and U+5173 U+6CE8 (follow).
\<close>

fun after_first :: "pystr \<Rightarrow> pystr \<Rightarrow> pystr option" where
  "after_first p [] = (if p = [] then Some [] else None)"
| "after_first p (c # cs) =
     (if prefix p (c # cs) then Some (drop (length p) (c # cs)) else after_first p cs)"

definition re_email_placeholder :: "pystr \<Rightarrow> bool" where
  "re_email_placeholder s =
     (case after_first (py ''[email'') s of Some rest \<Rightarrow> 93 \<in> set rest | None \<Rightarrow> False)"

definition email_patterns :: "(pystr \<Rightarrow> bool) list" where
  "email_patterns = [re_email_placeholder, str_in [0x90AE, 0x7BB1], str_in (py ''@''),
     str_in (py ''__cf_email__'')]"

definition author_patterns :: "pystr list" where
  "author_patterns = [py ''Buddhavamsa'', [0x5E03, 0x8FBE, 0x6587, 0x8428], [0x516C, 0x4F17, 0x53F7],
     [0x5173, 0x6CE8]]"

text \<open>The body of the loop over the last paragraphs: the value of \<^verbatim>\<open>is_footer\<close> for one.\<close>

definition is_footer :: "node \<Rightarrow> bool" where
  "is_footer p =
     (let p_text = strip (get_text p) in
      list_ex (\<lambda>pattern. pattern (str_node p)) email_patterns \<or>
      list_ex (\<lambda>pattern. str_in pattern p_text) author_patterns \<or>
      (find_tag [py ''img''] p \<noteq> None \<and> length (strip p_text) < 3) \<or>
      ((str_in (py ''color: rgb(34, 34, 34)'') (str_node p) \<or> str_in (py ''Helvetica Neue'') (str_node p))
        \<and> length (strip p_text) < 30))"

text \<open>
  The loop visits \<^verbatim>\<open>paragraphs[-(i+1)]\<close> for \<^verbatim>\<open>i\<close> below \<^verbatim>\<open>min(5, len(paragraphs))\<close> and
  breaks at the first paragraph that is no footer; the paragraphs collected until then
  are decomposed in the order in which they were found, the last one first.
\<close>

definition remove_footer_elements :: "node \<Rightarrow> node" where
  "remove_footer_elements content_div =
     (let paragraphs = positions [py ''p''] content_div in
      if length paragraphs < 3 then content_div
      else
        let footer_elements =
          takeWhile (\<lambda>(q, p). is_footer p) (take (min 5 (length paragraphs)) (rev paragraphs))
        in foldl (\<lambda>soup (q, p). decompose_at q soup) content_div footer_elements)"

section \<open>Style Normalizer\<close>

text \<open>
  \<^verbatim>\<open>re.search(prop + r'\s*([^;]+)', style)\<close> for \<open>prop\<close> one of \<^verbatim>\<open>text-align:\<close> and
  \<^verbatim>\<open>text-indent:\<close>: the group of the leftmost match. After the property name the
  expression skips white space and takes everything up to the next semicolon; when
  nothing but white space stands before the semicolon (or the end), backtracking gives
  the last white-space character to the group; with nothing at all there the search
  goes on to the right.
\<close>

fun re_css_value :: "pystr \<Rightarrow> pystr \<Rightarrow> pystr option" where
  "re_css_value prop [] = None"
| "re_css_value prop (c # cs) =
     (if prefix prop (c # cs) then
        (let rest = drop (length prop) (c # cs);
             ws = takeWhile is_space rest;
             v = takeWhile (\<lambda>x. x \<noteq> 59) (dropWhile is_space rest)
         in if v \<noteq> [] then Some v
            else if ws \<noteq> [] then Some [last ws]
            else re_css_value prop cs)
      else re_css_value prop cs)"

text \<open>The list \<^verbatim>\<open>new_style\<close> that the loop over the paragraphs builds (source lines 149 to 164).\<close>

definition new_style :: "pystr \<Rightarrow> pystr list" where
  "new_style style =
     (if str_in (py ''text-align'') style then
        (case re_css_value (py ''text-align:'') style of
           Some v \<Rightarrow> [py ''text-align: '' @ v] | None \<Rightarrow> [])
      else []) @
     (if str_in (py ''font-weight'') style \<and> str_in (py ''bold'') style
      then [py ''font-weight: bold''] else []) @
     (if str_in (py ''text-indent'') style then
        (case re_css_value (py ''text-indent:'') style of
           Some v \<Rightarrow> [py ''text-indent: '' @ v] | None \<Rightarrow> [])
      else [])"

text \<open>
  Source lines 166 to 172 on the attributes of one paragraph. Assigning to an attribute
  that exists keeps its place in the dictionary (\<open>AList.update\<close>); \<^verbatim>\<open>del\<close> removes it.
\<close>

definition p_style :: "attrs \<Rightarrow> attrs" where
  "p_style a =
     (let style = get_attr a (py ''style''); ns = new_style style in
      if ns \<noteq> [] then AList.update (py ''style'') (join (py ''; '') ns) a
      else AList.delete (py ''style'') a)"

definition heading_tags :: "pystr list" where
  "heading_tags = map py [''h1'', ''h2'', ''h3'', ''h4'', ''h5'', ''h6'']"

definition format_p :: "pystr \<Rightarrow> attrs \<Rightarrow> attrs" where
  "format_p t a = (if t = py ''p'' then p_style a else a)"

definition format_h :: "pystr \<Rightarrow> attrs \<Rightarrow> attrs" where
  "format_h t a =
     (if t \<in> set heading_tags
      then AList.update (py ''style'') (py ''text-align: center; font-weight: bold;'') a else a)"

text \<open>
  \<^verbatim>\<open>html.replace('</p><p', '</p>\n<p')\<close> on the serialised soup, as the tree that the caller
  parses from the result: a line feed becomes a text node between a paragraph and a
  following sibling element whose name starts with \<^verbatim>\<open>p\<close>.
\<close>

definition opens_with_p :: "node \<Rightarrow> bool" where
  "opens_with_p n = (case n of Element t a cs \<Rightarrow> startswith t (py ''p'') | _ \<Rightarrow> False)"

fun insert_newlines :: "node \<Rightarrow> node"
  and insert_newlines_list :: "node list \<Rightarrow> node list" where
  "insert_newlines (Text s) = Text s"
| "insert_newlines (Comment s) = Comment s"
| "insert_newlines (Element t a cs) = Element t a (insert_newlines_list cs)"
| "insert_newlines_list [] = []"
| "insert_newlines_list (c # cs) =
     (if has_tag [py ''p''] c \<and> (case cs of [] \<Rightarrow> False | d # ds \<Rightarrow> opens_with_p d)
      then insert_newlines c # Text [10] # insert_newlines_list cs
      else insert_newlines c # insert_newlines_list cs)"

text \<open>
  \<^verbatim>\<open>_preserve_formatting\<close> (source lines 141 to 183). It takes the serialised container and
  returns markup; here it takes the container and returns the soup that the caller
  parses from that markup.
\<close>

definition preserve_formatting :: "node \<Rightarrow> node" where
  "preserve_formatting d =
     insert_newlines (map_attrs format_h (map_attrs format_p (soup_of_fragment d)))"

section \<open>Content Extractor\<close>

text \<open>
  Source lines 90 to 96. The search for comments, \<^verbatim>\<open>find_all(string=f)\<close>, offers every
  string node of the tree (text and comments alike) to \<^verbatim>\<open>f\<close>, which asks whether the
  stripped string starts with \<^verbatim>\<open><!--\<close>.
\<close>

definition is_comment_string :: "node \<Rightarrow> bool" where
  "is_comment_string n =
     (case n of Text s \<Rightarrow> startswith (strip s) (py ''<!--'')
      | Comment s \<Rightarrow> startswith (strip s) (py ''<!--'')
      | Element t a cs \<Rightarrow> False)"

definition unwanted_tags :: "pystr list" where
  "unwanted_tags = map py [''script'', ''style'', ''meta'', ''link'', ''noscript'', ''iframe'']"

definition clean_soup :: "node \<Rightarrow> node" where
  "clean_soup soup = remove_where is_comment_string (remove_where (has_tag unwanted_tags) soup)"

text \<open>Source lines 98 to 102.\<close>

definition extract_title :: "node \<Rightarrow> pystr" where
  "extract_title soup =
     (case find_tag [py ''h1''] soup of Some title_tag \<Rightarrow> strip (get_text title_tag) | None \<Rightarrow> [])"

text \<open>
  Source lines 105 to 107. \<^verbatim>\<open>class_='rich_media_content'\<close> matches an element one of whose
  class names is that text; \<open>split_ws\<close> gives the class names of an attribute value.
\<close>

fun split_ws :: "pystr \<Rightarrow> pystr list" where
  "split_ws [] = []"
| "split_ws (c # cs) =
     (if is_space c then split_ws cs
      else case split_ws cs of
        [] \<Rightarrow> [[c]]
      | w # ws \<Rightarrow> (case cs of [] \<Rightarrow> [[c]] | d # ds \<Rightarrow> if is_space d then [c] # w # ws else (c # w) # ws))"

definition has_id :: "pystr \<Rightarrow> node \<Rightarrow> bool" where
  "has_id v n = (attr_get n (py ''id'') = Some v)"

definition has_class :: "pystr \<Rightarrow> node \<Rightarrow> bool" where
  "has_class v n = (case attr_get n (py ''class'') of Some c \<Rightarrow> v \<in> set (split_ws c) | None \<Rightarrow> False)"

definition find_content_div :: "node \<Rightarrow> node option" where
  "find_content_div soup =
     (case find (\<lambda>n. has_tag [py ''div''] n \<and> has_id (py ''js_content'') n) (descendants soup) of
        Some content_div \<Rightarrow> Some content_div
      | None \<Rightarrow> find (\<lambda>n. has_tag [py ''div''] n \<and> has_class (py ''rich_media_content'') n)
                  (descendants soup))"

text \<open>\<^verbatim>\<open>os.path.basename\<close>.\<close>

definition basename :: "pystr \<Rightarrow> pystr" where
  "basename p = rev (takeWhile (\<lambda>c. c \<noteq> 47) (rev p))"

text \<open>
  The loop over the images (source lines 126 to 137): what it does to the attributes of
  one image, and the sources it appends to \<^verbatim>\<open>image_files_to_process\<close>, in document order.
\<close>

definition process_img :: "attrs \<Rightarrow> attrs" where
  "process_img a =
     (let src = get_attr a (py ''src'');
          a' = (if startswith src (py ''./assets/'') then AList.update (py ''src'') (basename src) a else a)
      in filter (\<lambda>(k, v). \<not> (k \<noteq> py ''src'' \<and> k \<noteq> py ''alt'')) a')"

definition format_img :: "pystr \<Rightarrow> attrs \<Rightarrow> attrs" where
  "format_img t a = (if t = py ''img'' then process_img a else a)"

definition img_sources :: "node \<Rightarrow> pystr list" where
  "img_sources soup =
     filter (\<lambda>src. startswith src (py ''./assets/''))
       (map (\<lambda>img. case attr_get img (py ''src'') of Some v \<Rightarrow> v | None \<Rightarrow> [])
          (find_all [py ''img''] soup))"

text \<open>
  \<^verbatim>\<open>clean_html_content\<close> (source lines 86 to 139), in three steps: \<open>processed_content\<close> is
  the soup parsed at line 125 (\<open>None\<close> when no container is found), \<open>soup_content\<close> the
  same soup after the loop over its images, and \<open>clean_html_content\<close> the result with
  the list of image files as it stands afterwards. \<open>lxml\<close> is the parser: the soup of a
  markup text. \<^verbatim>\<open>content_copy.find('div')\<close> finds the container itself, the copy's first
  element below \<^verbatim>\<open>body\<close>; were there none, \<^verbatim>\<open>str(None)\<close> would be parsed.
\<close>

definition processed_content :: "node \<Rightarrow> node option" where
  "processed_content soup =
     (case find_content_div soup of
        None \<Rightarrow> None
      | Some content_div \<Rightarrow>
          let content_copy = remove_footer_elements (soup_of_fragment content_div)
          in Some (case find_tag [py ''div''] content_copy of
                     Some d \<Rightarrow> preserve_formatting d
                   | None \<Rightarrow> preserve_formatting (Element (py ''p'') [] [Text (py ''None'')])))"

definition soup_content :: "node \<Rightarrow> node option" where
  "soup_content soup = map_option (map_attrs format_img) (processed_content soup)"

definition clean_html_content ::
    "(pystr \<Rightarrow> node) \<Rightarrow> pystr list \<Rightarrow> pystr \<Rightarrow> pystr \<times> pystr \<times> pystr list" where
  "clean_html_content lxml image_files_to_process html_content =
     (let soup = clean_soup (lxml html_content);
          title = extract_title soup
      in case processed_content soup of
           None \<Rightarrow> (title, py ''<p>Content not found</p>'', image_files_to_process)
         | Some soup0 \<Rightarrow>
             (title, str_soup (map_attrs format_img soup0),
              image_files_to_process @ img_sources soup0))"

section \<open>Directory Walker and Book Assembler\<close>

text \<open>
  The file system as the converter sees it: what a path names, if anything. A directory
  has the names that \<^verbatim>\<open>os.listdir\<close> returns, in the order in which it returns them; a
  file has its bytes and, when they are valid UTF-8, the text that reading it in text
  mode gives. Paths are POSIX paths; the file system resolves them, so the model looks
  up the joined text as it is. Every failure of the operating system is \<open>OSError\<close>.
\<close>

datatype entry = Dir "pystr list" | File "nat list" "pystr option"

type_synonym filesystem = "pystr \<Rightarrow> entry option"

definition path_join :: "pystr \<Rightarrow> pystr \<Rightarrow> pystr" where
  "path_join a b =
     (if startswith b [47] then b
      else if a = [] \<or> last a = 47 then a @ b
      else a @ [47] @ b)"

definition path_exists :: "filesystem \<Rightarrow> pystr \<Rightarrow> bool" where
  "path_exists fs p = (fs p \<noteq> None)"

definition path_isdir :: "filesystem \<Rightarrow> pystr \<Rightarrow> bool" where
  "path_isdir fs p = (case fs p of Some (Dir names) \<Rightarrow> True | _ \<Rightarrow> False)"

definition listdir :: "filesystem \<Rightarrow> pystr \<Rightarrow> error + pystr list" where
  "listdir fs p = (case fs p of Some (Dir names) \<Rightarrow> Inr names | _ \<Rightarrow> Inl OSError)"

definition read_text :: "filesystem \<Rightarrow> pystr \<Rightarrow> error + pystr" where
  "read_text fs p =
     (case fs p of
        Some (File bytes (Some text)) \<Rightarrow> Inr text
      | Some (File bytes None) \<Rightarrow> Inl UnicodeDecodeError
      | _ \<Rightarrow> Inl OSError)"

definition read_bytes :: "filesystem \<Rightarrow> pystr \<Rightarrow> error + nat list" where
  "read_bytes fs p = (case fs p of Some (File bytes text) \<Rightarrow> Inr bytes | _ \<Rightarrow> Inl OSError)"

text \<open>
  \<^verbatim>\<open>all_dirs.sort(key=...)\<close>: the keys are computed first, one call of the key function for
  each element, and an exception from it ends the sort; then the list is sorted by the
  keys, stably.
\<close>

fun decorate :: "(pystr \<times> pystr) list \<Rightarrow> error + (date \<times> pystr \<times> pystr) list" where
  "decorate [] = Inr []"
| "decorate (x # xs) =
     (case extract_date_from_dirname (fst x) of
        Inl e \<Rightarrow> Inl e
      | Inr k \<Rightarrow> (case decorate xs of Inl e \<Rightarrow> Inl e | Inr ks \<Rightarrow> Inr ((k, x) # ks)))"

text \<open>\<^verbatim>\<open>process_directory\<close> (source lines 251 to 268); \<open>is_article_dir\<close> is its filter.\<close>

definition is_article_dir :: "filesystem \<Rightarrow> pystr \<Rightarrow> pystr \<Rightarrow> bool" where
  "is_article_dir fs source_dir item =
     (path_isdir fs (path_join source_dir item) \<and> \<not> startswith item (py ''.'') \<and>
      path_exists fs (path_join (path_join source_dir item) (py ''index.html'')))"

definition process_directory :: "filesystem \<Rightarrow> pystr \<Rightarrow> error + (pystr \<times> pystr) list" where
  "process_directory fs source_dir =
     (case listdir fs source_dir of
        Inl e \<Rightarrow> Inl e
      | Inr names \<Rightarrow>
          let all_dirs = map (\<lambda>item. (item, path_join source_dir item))
                           (filter (is_article_dir fs source_dir) names)
          in case decorate all_dirs of
               Inl e \<Rightarrow> Inl e
             | Inr keyed \<Rightarrow> Inr (map snd (sort_key fst keyed)))"

text \<open>
  The objects of the packaging library that the converter fills in: documents
  (\<^verbatim>\<open>EpubHtml\<close>), resources (\<^verbatim>\<open>EpubItem\<close>), links, the book, and the converter's own
  fields. A spine entry is an item or the identifier of one (\<^verbatim>\<open>'nav'\<close>). The stylesheet
  links of the documents are not modelled.
\<close>

record epub_html =
  html_title :: pystr
  file_name :: pystr
  lang :: pystr
  content :: pystr

record epub_item =
  item_uid :: pystr
  item_file_name :: pystr
  media_type :: pystr
  item_content :: "nat list"

datatype book_item = Html epub_html | Item epub_item | EpubNcx | EpubNav

datatype spine_entry = SpineId pystr | SpineItem epub_html

record link =
  href :: pystr
  link_title :: pystr
  link_uid :: pystr

record epub_book =
  book_identifier :: pystr
  book_title :: pystr
  book_language :: pystr
  book_authors :: "pystr list"
  items :: "book_item list"
  book_spine :: "spine_entry list"
  book_toc :: "link list"

record converter =
  book :: epub_book
  chapters :: "epub_html list"
  spine :: "spine_entry list"
  toc :: "link list"
  image_files_to_process :: "pystr list"

definition collection_title :: pystr where
  "collection_title = [24067, 36798, 25991, 33832, 25991, 38598]"

definition default_css :: pystr where
  "default_css = [10] @ py ''        @namespace epub '' @ [34] @ py ''http://www.idpf.org/2007/ops'' @ [34] @ py '';'' @ [10] @ py ''        body {'' @ [10] @ py ''            font-family: '' @ [34] @ py ''Noto Sans CJK SC'' @ [34] @ py '', '' @ [34] @ py ''Noto Sans SC'' @ [34] @ py '', '' @ [34] @ py ''Source Han Sans CN'' @ [34] @ py '', serif;'' @ [10] @ py ''            margin: 5%;'' @ [10] @ py ''            text-align: justify;'' @ [10] @ py ''        }'' @ [10] @ py ''        h1, h2 {'' @ [10] @ py ''            text-align: center;'' @ [10] @ py ''            font-weight: bold;'' @ [10] @ py ''            margin-top: 1em;'' @ [10] @ py ''            margin-bottom: 1em;'' @ [10] @ py ''        }'' @ [10] @ py ''        p {'' @ [10] @ py ''            margin: 1em 0;'' @ [10] @ py ''            line-height: 1.5em;'' @ [10] @ py ''        }'' @ [10] @ py ''        .center {'' @ [10] @ py ''            text-align: center;'' @ [10] @ py ''        }'' @ [10] @ py ''        .strong {'' @ [10] @ py ''            font-weight: bold;'' @ [10] @ py ''        }'' @ [10] @ py ''        img {'' @ [10] @ py ''            max-width: 100%;'' @ [10] @ py ''            height: auto;'' @ [10] @ py ''        }'' @ [10] @ py ''        ''"

text \<open>\<^verbatim>\<open>__init__\<close> (source lines 23 to 74).\<close>

definition init_converter :: converter where
  "init_converter =
     \<lparr>book = \<lparr>book_identifier = py ''id123456789'', book_title = collection_title,
               book_language = py ''zh-CN'', book_authors = [py ''Buddhavamsa''],
               items = [Item \<lparr>item_uid = py ''style_default'', item_file_name = py ''style/default.css'',
                               media_type = py ''text/css'', item_content = default_css\<rparr>],
               book_spine = [], book_toc = []\<rparr>,
      chapters = [], spine = [SpineId (py ''nav'')], toc = [], image_files_to_process = []\<rparr>"

definition add_item :: "book_item \<Rightarrow> converter \<Rightarrow> converter" where
  "add_item it self = self\<lparr>book := (book self)\<lparr>items := items (book self) @ [it]\<rparr>\<rparr>"

text \<open>
  \<^verbatim>\<open>os.path.splitext(p)[1]\<close>: the extension starts at the last dot of the last path
  component, unless only dots stand before it there.
\<close>

definition splitext_ext :: "pystr \<Rightarrow> pystr" where
  "splitext_ext p =
     (let b = basename p;
          e = rev (takeWhile (\<lambda>c. c \<noteq> 46) (rev b));
          stem = take (length b - length e - 1) b
      in if 46 \<in> set b \<and> list_ex (\<lambda>c. c \<noteq> 46) stem then 46 # e else [])"

definition media_type_of :: "pystr \<Rightarrow> pystr" where
  "media_type_of full_img_path =
     (let img_ext = lower (splitext_ext full_img_path) in
      if img_ext = py ''.jpg'' \<or> img_ext = py ''.jpeg'' then py ''image/jpeg''
      else if img_ext = py ''.png'' then py ''image/png''
      else if img_ext = py ''.gif'' then py ''image/gif''
      else if img_ext = py ''.svg'' then py ''image/svg+xml''
      else py ''image/jpeg'')"

definition date_str_of :: "pystr \<Rightarrow> pystr" where
  "date_str_of dir_name = (case re_search_date dir_name of Some g \<Rightarrow> g | None \<Rightarrow> [])"

text \<open>
  The body of the loop over \<^verbatim>\<open>image_files_to_process\<close> (source lines 316 to 349) for one
  image path, on the converter and the chapter; \<open>embed_images\<close> is the loop.
\<close>

definition embed_image ::
    "filesystem \<Rightarrow> pystr \<Rightarrow> nat \<Rightarrow> pystr \<Rightarrow> converter \<times> epub_html \<Rightarrow> error + converter \<times> epub_html" where
  "embed_image fs dir_path chapter_id img_path st =
     (let (self, chapter) = st; full_img_path = path_join dir_path img_path in
      if path_exists fs full_img_path then
        (case read_bytes fs full_img_path of
           Inl e \<Rightarrow> Inl e
         | Inr img_content \<Rightarrow>
             let img_name = basename img_path;
                 img_item = \<lparr>item_uid = py ''image_'' @ str_nat chapter_id @ py ''_'' @ img_name,
                             item_file_name = py ''images/'' @ img_name,
                             media_type = media_type_of full_img_path,
                             item_content = img_content\<rparr>
             in Inr (add_item (Item img_item) self,
                     chapter\<lparr>content :=
                       replace (py ''src='' @ [34] @ img_name @ [34])
                               (py ''src='' @ [34] @ py ''images/'' @ img_name @ [34])
                               (content chapter)\<rparr>))
      else Inr (self, chapter))"

fun embed_images ::
    "filesystem \<Rightarrow> pystr \<Rightarrow> nat \<Rightarrow> pystr list \<Rightarrow> converter \<times> epub_html \<Rightarrow> error + converter \<times> epub_html" where
  "embed_images fs dir_path chapter_id [] st = Inr st"
| "embed_images fs dir_path chapter_id (img_path # rest) st =
     (case embed_image fs dir_path chapter_id img_path st of
        Inl e \<Rightarrow> Inl e
      | Inr st' \<Rightarrow> embed_images fs dir_path chapter_id rest st')"

text \<open>
  \<^verbatim>\<open>process_html_file\<close> (source lines 270 to 351): the converter afterwards and the pair
  that the method returns, \<open>None\<close> when there is no entry document.
\<close>

definition process_html_file ::
    "(pystr \<Rightarrow> node) \<Rightarrow> filesystem \<Rightarrow> pystr \<times> pystr \<Rightarrow> nat \<Rightarrow> converter
       \<Rightarrow> error + converter \<times> (epub_html \<times> pystr) option" where
  "process_html_file lxml fs dir_info chapter_id self =
     (let (dir_name, dir_path) = dir_info; html_path = path_join dir_path (py ''index.html'') in
      if \<not> path_exists fs html_path then Inr (self, None)
      else
        case read_text fs html_path of
          Inl e \<Rightarrow> Inl e
        | Inr html_content \<Rightarrow>
            let (title0, clean_content, images) = clean_html_content lxml [] html_content;
                self1 = self\<lparr>image_files_to_process := images\<rparr>;
                title = (if title0 = [] then dir_name else title0);
                date_str = date_str_of dir_name;
                chapter = \<lparr>html_title = title,
                            file_name = py ''chapter_'' @ str_nat chapter_id @ py ''.xhtml'',
                            lang = py ''zh-CN'',
                            content = [10] @ py ''        <h1>'' @ title @ py ''</h1>'' @ [10] @
                              py ''        <p class='' @ [34] @ py ''center'' @ [34] @ py ''><strong>'' @
                              date_str @ py ''</strong></p>'' @ [10] @ py ''        '' @
                              clean_content @ [10] @ py ''        ''\<rparr>
            in if path_exists fs (path_join dir_path (py ''assets'')) then
                 (case embed_images fs dir_path chapter_id (image_files_to_process self1) (self1, chapter) of
                    Inl e \<Rightarrow> Inl e
                  | Inr (self2, chapter2) \<Rightarrow> Inr (self2, Some (chapter2, title)))
               else Inr (self1, Some (chapter, title)))"

text \<open>
  \<^verbatim>\<open>create_epub\<close> (source lines 353 to 417). \<open>process_articles\<close> is its loop over the
  directories, \<open>i\<close> the index that \<^verbatim>\<open>enumerate\<close> counts. \<open>today\<close> is the text of the current
  date. The result is the converter whose book is handed to \<^verbatim>\<open>epub.write_epub\<close>.
\<close>

definition toc_entry :: "pystr \<Rightarrow> epub_html \<Rightarrow> pystr \<Rightarrow> pystr" where
  "toc_entry dir_name chapter title =
     py ''<li><a href='' @ [34] @ file_name chapter @ [34] @ py ''>'' @ date_str_of dir_name @
     py '' - '' @ title @ py ''</a></li>''"

fun process_articles ::
    "(pystr \<Rightarrow> node) \<Rightarrow> filesystem \<Rightarrow> nat \<Rightarrow> (pystr \<times> pystr) list \<Rightarrow> converter \<times> pystr
       \<Rightarrow> error + converter \<times> pystr" where
  "process_articles lxml fs i [] st = Inr st"
| "process_articles lxml fs i (dir_info # rest) (self, toc_content) =
     (case process_html_file lxml fs dir_info (i + 1) self of
        Inl e \<Rightarrow> Inl e
      | Inr (self1, None) \<Rightarrow> process_articles lxml fs (i + 1) rest (self1, toc_content)
      | Inr (self1, Some (chapter, title)) \<Rightarrow>
          let self2 = add_item (Html chapter) self1;
              self3 = self2\<lparr>chapters := chapters self2 @ [chapter],
                            spine := spine self2 @ [SpineItem chapter],
                            toc := toc self2 @ [\<lparr>href = file_name chapter, link_title = title,
                                                  link_uid = py ''chapter_'' @ str_nat (i + 1)\<rparr>]\<rparr>
          in process_articles lxml fs (i + 1) rest
               (self3, toc_content @ toc_entry (fst dir_info) chapter title))"

definition cover_page :: "nat \<Rightarrow> pystr \<Rightarrow> epub_html" where
  "cover_page n today =
     \<lparr>html_title = [23553, 38754], file_name = py ''cover.xhtml'', lang = py ''zh-CN'',
      content = [10] @ py ''        <html>'' @ [10] @ py ''        <head>'' @ [10] @
        py ''            <title>'' @ collection_title @ py ''</title>'' @ [10] @ py ''        </head>'' @ [10] @
        py ''        <body>'' @ [10] @ py ''            <div style='' @ [34] @
        py ''text-align: center; padding-top: 20%;'' @ [34] @ py ''>'' @ [10] @
        py ''                <h1>'' @ collection_title @ py ''</h1>'' @ [10] @
        py ''                <p>'' @ [20849, 25910, 24405] @ py '' '' @ str_nat n @ py '' '' @
        [31687, 25991, 31456] @ py ''</p>'' @ [10] @ py ''                <p>'' @
        [29983, 25104, 26085, 26399] @ py '': '' @ today @ py ''</p>'' @ [10] @
        py ''            </div>'' @ [10] @ py ''        </body>'' @ [10] @ py ''        </html>'' @ [10] @
        py ''        ''\<rparr>"

definition toc_page_of :: "pystr \<Rightarrow> epub_html" where
  "toc_page_of toc_content =
     \<lparr>html_title = [30446, 24405], file_name = py ''toc.xhtml'', lang = py ''zh-CN'', content = toc_content\<rparr>"

definition insert_at :: "nat \<Rightarrow> 'a \<Rightarrow> 'a list \<Rightarrow> 'a list" where
  "insert_at i x xs = take i xs @ [x] @ drop i xs"

definition create_epub ::
    "(pystr \<Rightarrow> node) \<Rightarrow> pystr \<Rightarrow> filesystem \<Rightarrow> pystr \<Rightarrow> converter \<Rightarrow> error + converter" where
  "create_epub lxml today fs source_dir self =
     (case process_directory fs source_dir of
        Inl e \<Rightarrow> Inl e
      | Inr all_dirs \<Rightarrow>
          let cover = cover_page (length all_dirs) today;
              self1 = add_item (Html cover) self;
              self2 = self1\<lparr>spine := spine self1 @ [SpineItem cover]\<rparr>;
              toc_content = py ''<h1>'' @ [30446, 24405] @ py ''</h1><ul>''
          in case process_articles lxml fs 0 all_dirs (self2, toc_content) of
               Inl e \<Rightarrow> Inl e
             | Inr (self3, toc_content1) \<Rightarrow>
                 let toc_page = toc_page_of (toc_content1 @ py ''</ul>'');
                     self4 = add_item (Html toc_page) self3;
                     self5 = self4\<lparr>spine := insert_at 1 (SpineItem toc_page) (spine self4)\<rparr>;
                     self6 = self5\<lparr>toc := insert_at 0 \<lparr>href = py ''toc.xhtml'', link_title = [30446, 24405],
                                                           link_uid = py ''toc''\<rparr> (toc self5)\<rparr>;
                     self7 = self6\<lparr>book := (book self6)\<lparr>book_spine := spine self6, book_toc := toc self6\<rparr>\<rparr>
                 in Inr (add_item EpubNav (add_item EpubNcx self7)))"


section \<open>Notions used to state the properties\<close>

text \<open>
  A date written as the pattern wants it, with ASCII digits and leading zeros, and the
  dates of the calendar.
\<close>

fun dec_digits :: "nat \<Rightarrow> nat \<Rightarrow> pystr" where
  "dec_digits 0 n = []"
| "dec_digits (Suc k) n = dec_digits k (n div 10) @ [48 + n mod 10]"

definition ymd_text :: "nat \<Rightarrow> nat \<Rightarrow> nat \<Rightarrow> pystr" where
  "ymd_text y m d = dec_digits 4 y @ [45] @ dec_digits 2 m @ [45] @ dec_digits 2 d"

definition valid_date :: "nat \<Rightarrow> nat \<Rightarrow> nat \<Rightarrow> bool" where
  "valid_date y m d = (1 \<le> y \<and> y \<le> 9999 \<and> 1 \<le> m \<and> m \<le> 12 \<and> 1 \<le> d \<and> d \<le> days_in_month y m)"

text \<open>\<open>t\<close> is the leftmost part of \<open>s\<close> that matches the date pattern.\<close>

definition leftmost_date_match :: "pystr \<Rightarrow> pystr \<Rightarrow> pystr \<Rightarrow> pystr \<Rightarrow> bool" where
  "leftmost_date_match s pre t post =
     (s = pre @ t @ post \<and> matches_shape date_shape t \<and>
      (\<forall>pre' t' post'. s = pre' @ t' @ post' \<and> matches_shape date_shape t' \<longrightarrow> length pre \<le> length pre'))"

text \<open>
  What decomposing the element at position \<open>ql\<close> does to an entry of a search result:
  the position stays, and the element loses the decomposed one if that was below it.
\<close>

definition shrink :: "nat list \<Rightarrow> nat list \<times> node \<Rightarrow> nat list \<times> node" where
  "shrink ql e = (fst e, if strict_prefix (fst e) ql then decompose_at (drop (length (fst e)) ql) (snd e) else snd e)"

text \<open>The number of paragraphs that the Footer Stripper collects.\<close>

definition footer_run :: "node \<Rightarrow> nat" where
  "footer_run content_div =
     (let paragraphs = positions [py ''p''] content_div in
      if length paragraphs < 3 then 0
      else length (takeWhile (\<lambda>(q, p). is_footer p) (take (min 5 (length paragraphs)) (rev paragraphs))))"

text \<open>
  The Date Extractor's output as a date; it is the extractor's result for every name
  (lemma \<open>extract_date_of\<close>), the other branch is never taken.
\<close>

definition date_of :: "pystr \<Rightarrow> date" where
  "date_of name = (case extract_date_from_dirname name of Inr d \<Rightarrow> d | Inl e \<Rightarrow> (2000, 1, 1))"

text \<open>
  The navigation link that \<^verbatim>\<open>create_epub\<close> makes for the chapter with ordinal \<open>i\<close>, and
  the links of a list of chapters whose ordinals follow \<open>i\<close>.
\<close>

definition chapter_link :: "nat \<Rightarrow> epub_html \<Rightarrow> link" where
  "chapter_link i chap =
     \<lparr>href = file_name chap, link_title = html_title chap, link_uid = py ''chapter_'' @ str_nat i\<rparr>"

fun chapter_links :: "nat \<Rightarrow> epub_html list \<Rightarrow> link list" where
  "chapter_links i [] = []"
| "chapter_links i (c # cs) = chapter_link (i + 1) c # chapter_links (i + 1) cs"

text \<open>What a spine entry names: an identifier, or the file of a document.\<close>

definition spine_name :: "spine_entry \<Rightarrow> pystr" where
  "spine_name e = (case e of SpineId s \<Rightarrow> s | SpineItem h \<Rightarrow> file_name h)"

text \<open>The attributes of an element.\<close>

definition node_attrs :: "node \<Rightarrow> attrs" where
  "node_attrs n = (case n of Element t a cs \<Rightarrow> a | _ \<Rightarrow> [])"

text \<open>
  \<^verbatim>\<open>s.split(c)\<close> for a separator of one character, and the property names of the value
  of a style attribute: the declarations are the pieces between semicolons, and the name
  of a declaration is what stands before its first colon, stripped.
\<close>

fun split_on :: "nat \<Rightarrow> pystr \<Rightarrow> pystr list" where
  "split_on c [] = [[]]"
| "split_on c (x # xs) =
     (if x = c then [] # split_on c xs
      else case split_on c xs of w # ws \<Rightarrow> (x # w) # ws | [] \<Rightarrow> [[x]])"

definition prop_name :: "pystr \<Rightarrow> pystr" where
  "prop_name d = strip (takeWhile (\<lambda>x. x \<noteq> 58) d)"

definition css_properties :: "pystr \<Rightarrow> pystr list" where
  "css_properties v = map prop_name (split_on 59 v)"

definition allowed_properties :: "pystr list" where
  "allowed_properties = [py ''text-align'', py ''text-indent'', py ''font-weight'']"

text \<open>
  A declaration that may stand in the list \<^verbatim>\<open>new_style\<close>: it holds no semicolon, and its
  name is one of the three, also behind the blank that \<^verbatim>\<open>'; '.join\<close> puts before it.
\<close>

definition style_item :: "pystr \<Rightarrow> bool" where
  "style_item it = (59 \<notin> set it \<and> it \<noteq> [] \<and> prop_name it \<in> set allowed_properties
     \<and> prop_name (32 # it) \<in> set allowed_properties)"

text \<open>
  The text \<^verbatim>\<open>src="v"\<close> of an image source in markup, and a file name that the serialiser
  writes as it is: one with no double quote, ampersand, angle bracket or equals sign.
\<close>

definition src_attr :: "pystr \<Rightarrow> pystr" where
  "src_attr v = py ''src='' @ [34] @ v @ [34]"

definition plain_name :: "pystr \<Rightarrow> bool" where
  "plain_name b = (set b \<inter> {34, 38, 60, 61, 62} = {})"

text \<open>
  The resource that the loop over the image files adds for one image path, with the bytes
  that the path names; what one turn of the loop does to the chapter body; and the image
  paths for which the loop adds a resource: those of the cleaned content that exist, when
  the article has an \<^verbatim>\<open>assets\<close> directory.
\<close>

definition image_item :: "filesystem \<Rightarrow> pystr \<Rightarrow> nat \<Rightarrow> pystr \<Rightarrow> epub_item" where
  "image_item fs dir_path chapter_id img_path =
     \<lparr>item_uid = py ''image_'' @ str_nat chapter_id @ py ''_'' @ basename img_path,
      item_file_name = py ''images/'' @ basename img_path,
      media_type = media_type_of (path_join dir_path img_path),
      item_content = (case read_bytes fs (path_join dir_path img_path) of Inr bytes \<Rightarrow> bytes | Inl e \<Rightarrow> [])\<rparr>"

definition relink :: "pystr \<Rightarrow> pystr \<Rightarrow> pystr" where
  "relink c img_path =
     replace (src_attr (basename img_path)) (src_attr (py ''images/'' @ basename img_path)) c"

definition embedded :: "filesystem \<Rightarrow> pystr \<Rightarrow> node \<Rightarrow> pystr list" where
  "embedded fs dir_path soup0 =
     (if path_exists fs (path_join dir_path (py ''assets''))
      then filter (\<lambda>p. path_exists fs (path_join dir_path p)) (img_sources soup0) else [])"

section \<open>Example inputs\<close>

text \<open>
  A container of four paragraphs whose last one is a call to follow the account; a
  container whose third paragraph holds a picture paragraph inside an \<^verbatim>\<open>object\<close> element;
  a container of two paragraphs, the second an author line.
\<close>

definition footer_example :: node where
  "footer_example = soup_of_fragment (Element (py ''div'') [(py ''id'', py ''js_content'')]
     [Element (py ''p'') [] [Text (py ''one'')],
      Element (py ''p'') [] [Text (py ''two'')],
      Element (py ''p'') [] [Text (py ''three'')],
      Element (py ''p'') [] [Text [0x5173, 0x6CE8]]])"

definition nested_example :: node where
  "nested_example = soup_of_fragment (Element (py ''div'') [(py ''id'', py ''js_content'')]
     [Element (py ''p'') [] [Text (py ''one'')],
      Element (py ''p'') [] [Text (py ''two'')],
      Element (py ''p'') [] [Text (py ''three''),
        Element (py ''object'') [] [Element (py ''p'') [] [Element (py ''img'') [] []]]]])"

definition short_example :: node where
  "short_example = soup_of_fragment (Element (py ''div'') [(py ''id'', py ''js_content'')]
     [Element (py ''p'') [] [Text (py ''one'')],
      Element (py ''p'') [] [Text (py ''Buddhavamsa'')]])"

text \<open>
  A page with no content container, a parser that answers every markup with it, and a
  source root with two article directories, a hidden directory and a plain file.
\<close>

definition plain_page :: node where
  "plain_page = Element (py ''[document]'') [] [Element (py ''html'') [] [Element (py ''body'') []
     [Element (py ''p'') [] [Text (py ''hello'')]]]]"

definition example_lxml :: "pystr \<Rightarrow> node" where
  "example_lxml markup = plain_page"

definition example_fs :: filesystem where
  "example_fs =
     [py ''/r'' \<mapsto> Dir [py ''2024-03-01-a'', py ''no-date-dir'', py ''.git'', py ''notes.txt''],
      py ''/r/2024-03-01-a'' \<mapsto> Dir [py ''index.html''],
      py ''/r/2024-03-01-a/index.html'' \<mapsto> File [60, 112, 62] (Some (py ''<p>'')),
      py ''/r/no-date-dir'' \<mapsto> Dir [py ''index.html''],
      py ''/r/no-date-dir/index.html'' \<mapsto> File [60, 112, 62] (Some (py ''<p>'')),
      py ''/r/.git'' \<mapsto> Dir [py ''index.html''],
      py ''/r/.git/index.html'' \<mapsto> File [60, 112, 62] (Some (py ''<p>'')),
      py ''/r/notes.txt'' \<mapsto> File [60, 112, 62] (Some (py ''<p>''))]"

text \<open>
  A source root whose listing puts two directories without a date around a dated one.
\<close>

definition walker_fs :: filesystem where
  "walker_fs =
     [py ''/w'' \<mapsto> Dir [py ''zeta'', py ''2024-03-01-a'', py ''alpha''],
      py ''/w/zeta'' \<mapsto> Dir [py ''index.html''],
      py ''/w/zeta/index.html'' \<mapsto> File [60, 112, 62] (Some (py ''<p>'')),
      py ''/w/2024-03-01-a'' \<mapsto> Dir [py ''index.html''],
      py ''/w/2024-03-01-a/index.html'' \<mapsto> File [60, 112, 62] (Some (py ''<p>'')),
      py ''/w/alpha'' \<mapsto> Dir [py ''index.html''],
      py ''/w/alpha/index.html'' \<mapsto> File [60, 112, 62] (Some (py ''<p>''))]"

text \<open>
  A container with two pictures, one under \<^verbatim>\<open>./assets/\<close> and one elsewhere, and a page
  whose container holds a comment.
\<close>

definition img_example :: node where
  "img_example = soup_of_fragment (Element (py ''div'') [(py ''id'', py ''js_content'')]
     [Element (py ''p'') [] [Element (py ''img'')
        [(py ''class'', py ''pic''), (py ''src'', py ''./assets/x.png''), (py ''width'', py ''3'')] []],
      Element (py ''p'') [] [Element (py ''img'')
        [(py ''src'', py ''http://e/y.png''), (py ''style'', py ''color: red''), (py ''alt'', py ''y'')] []]])"

definition comment_page :: node where
  "comment_page = Element (py ''[document]'') [] [Element (py ''html'') [] [Element (py ''body'') []
     [Element (py ''script'') [] [Text (py ''x()'')],
      Element (py ''div'') [(py ''id'', py ''js_content'')]
        [Element (py ''p'') [] [Text (py ''one'')], Comment (py '' note '')]]]]"

text \<open>
  A container with a paragraph whose style holds an alignment and a colour, a paragraph
  whose style holds a colour only, and a heading with a style of its own.
\<close>

definition style_example :: node where
  "style_example = Element (py ''div'') [(py ''id'', py ''js_content'')]
     [Element (py ''p'') [(py ''style'', py ''color:red;text-align:center'')] [Text (py ''a'')],
      Element (py ''p'') [(py ''style'', py ''color:red'')] [Text (py ''b'')],
      Element (py ''h2'') [(py ''style'', py ''color:red'')] [Text (py ''c'')]]"

text \<open>
  A page whose picture stands before the content container, a page whose container holds
  two pictures, and an article directory with the file of the first picture only.
\<close>

definition outside_page :: node where
  "outside_page = Element (py ''[document]'') [] [Element (py ''html'') [] [Element (py ''body'') []
     [Element (py ''img'') [(py ''src'', py ''./assets/x.png'')] [],
      Element (py ''div'') [(py ''id'', py ''js_content'')] [Element (py ''p'') [] [Text (py ''one'')]]]]]"

definition picture_page :: node where
  "picture_page = Element (py ''[document]'') [] [Element (py ''html'') [] [Element (py ''body'') []
     [Element (py ''div'') [(py ''id'', py ''js_content'')]
        [Element (py ''p'') [] [Element (py ''img'') [(py ''src'', py ''./assets/x.png'')] []],
         Element (py ''p'') [] [Element (py ''img'') [(py ''src'', py ''./assets/y.png'')] []]]]]]"

definition picture_fs :: filesystem where
  "picture_fs =
     [py ''/p/a/index.html'' \<mapsto> File [60, 112, 62] (Some (py ''<p>'')),
      py ''/p/a/assets'' \<mapsto> Dir [py ''x.png''],
      py ''/p/a/./assets/x.png'' \<mapsto> File [137, 80, 78, 71] None]"
section \<open>Properties of the Date Extractor\<close>

lemma digit_value_ascii: "k < 10 \<Longrightarrow> digit_value (48 + k) = Some k"
  by (simp add: digit_value_def nd_starts_def)

lemma is_digit_ascii: "k < 10 \<Longrightarrow> is_digit (48 + k)"
  by (simp add: is_digit_def digit_value_ascii)

lemma matches_shape_length: "matches_shape date_shape t \<Longrightarrow> length t = 10"
  by (auto simp: matches_shape_def date_shape_def dest: list_all2_lengthD)

lemma matches_take_iff:
  "matches_shape date_shape (take 10 s) \<longleftrightarrow> (\<exists>t post. s = t @ post \<and> matches_shape date_shape t)"
proof
  assume "matches_shape date_shape (take 10 s)"
  then have "s = take 10 s @ drop 10 s \<and> matches_shape date_shape (take 10 s)" by simp
  then show "\<exists>t post. s = t @ post \<and> matches_shape date_shape t" by blast
next
  assume "\<exists>t post. s = t @ post \<and> matches_shape date_shape t"
  then obtain t post where s: "s = t @ post" and m: "matches_shape date_shape t" by blast
  from m have "length t = 10" by (rule matches_shape_length)
  with s have "take 10 s = t" by simp
  with m show "matches_shape date_shape (take 10 s)" by simp
qed

lemma re_search_date_None:
  "re_search_date s = None \<longleftrightarrow> \<not> (\<exists>pre t post. s = pre @ t @ post \<and> matches_shape date_shape t)"
proof (induction s)
  case Nil
  show ?case by (auto dest: matches_shape_length)
next
  case (Cons c cs)
  show ?case
  proof (cases "matches_shape date_shape (take 10 (c # cs))")
    case True
    then obtain t post where "c # cs = [] @ t @ post" "matches_shape date_shape t"
      unfolding matches_take_iff by auto
    then have "\<exists>pre t post. c # cs = pre @ t @ post \<and> matches_shape date_shape t" by blast
    with True show ?thesis by simp
  next
    case False
    have "(\<exists>pre t post. c # cs = pre @ t @ post \<and> matches_shape date_shape t) \<longleftrightarrow>
          (\<exists>pre t post. cs = pre @ t @ post \<and> matches_shape date_shape t)" (is "?L \<longleftrightarrow> ?R")
    proof
      assume ?L
      then obtain pre t post where e: "c # cs = pre @ t @ post" and m: "matches_shape date_shape t" by blast
      show ?R
      proof (cases pre)
        case Nil
        with e m have "\<exists>t post. c # cs = t @ post \<and> matches_shape date_shape t" by auto
        with False show ?thesis unfolding matches_take_iff by blast
      next
        case (Cons a pre')
        with e have "cs = pre' @ t @ post" by simp
        with m show ?thesis by blast
      qed
    next
      assume ?R
      then obtain pre t post where "cs = pre @ t @ post" "matches_shape date_shape t" by blast
      then have "c # cs = (c # pre) @ t @ post \<and> matches_shape date_shape t" by simp
      then show ?L by blast
    qed
    with False Cons.IH show ?thesis by simp
  qed
qed

lemma re_search_date_Some:
  "re_search_date s = Some t \<longleftrightarrow> (\<exists>pre post. leftmost_date_match s pre t post)"
proof (induction s)
  case Nil
  show ?case by (auto simp: leftmost_date_match_def dest: matches_shape_length)
next
  case (Cons c cs)
  show ?case
  proof (cases "matches_shape date_shape (take 10 (c # cs))")
    case True
    have "(\<exists>pre post. leftmost_date_match (c # cs) pre t post) \<longleftrightarrow> t = take 10 (c # cs)"
    proof
      assume "\<exists>pre post. leftmost_date_match (c # cs) pre t post"
      then obtain pre post where l: "leftmost_date_match (c # cs) pre t post" by blast
      have "c # cs = [] @ take 10 (c # cs) @ drop 10 (c # cs)" by simp
      with True l have "length pre \<le> length ([]::pystr)"
        unfolding leftmost_date_match_def by blast
      then have "pre = []" by simp
      with l have "c # cs = t @ post" and "length t = 10"
        by (auto simp: leftmost_date_match_def dest: matches_shape_length)
      then show "t = take 10 (c # cs)" by (metis append_eq_conv_conj)
    next
      assume t: "t = take 10 (c # cs)"
      have "leftmost_date_match (c # cs) [] t (drop 10 (c # cs))"
        unfolding leftmost_date_match_def using True t by simp
      then show "\<exists>pre post. leftmost_date_match (c # cs) pre t post" by blast
    qed
    with True show ?thesis by auto
  next
    case False
    have nohead: "\<not> (\<exists>t post. c # cs = t @ post \<and> matches_shape date_shape t)"
      using False unfolding matches_take_iff by simp
    have "(\<exists>pre post. leftmost_date_match (c # cs) pre t post) \<longleftrightarrow>
          (\<exists>pre post. leftmost_date_match cs pre t post)" (is "?L \<longleftrightarrow> ?R")
    proof
      assume ?L
      then obtain pre post where l: "leftmost_date_match (c # cs) pre t post" by blast
      then have e: "c # cs = pre @ t @ post" and m: "matches_shape date_shape t"
        and least: "\<And>pre' t' post'. c # cs = pre' @ t' @ post' \<Longrightarrow> matches_shape date_shape t' \<Longrightarrow> length pre \<le> length pre'"
        unfolding leftmost_date_match_def by blast+
      from e m nohead obtain pre0 where p: "pre = c # pre0" by (cases pre) auto
      with e have e0: "cs = pre0 @ t @ post" by simp
      have "leftmost_date_match cs pre0 t post"
        unfolding leftmost_date_match_def
      proof (intro conjI allI impI)
        show "cs = pre0 @ t @ post" by (rule e0)
        show "matches_shape date_shape t" by (rule m)
        fix pre' t' post' assume "cs = pre' @ t' @ post' \<and> matches_shape date_shape t'"
        then have "c # cs = (c # pre') @ t' @ post'" "matches_shape date_shape t'" by simp_all
        from least[OF this] p show "length pre0 \<le> length pre'" by simp
      qed
      then show ?R by blast
    next
      assume ?R
      then obtain pre post where l: "leftmost_date_match cs pre t post" by blast
      then have e: "cs = pre @ t @ post" and m: "matches_shape date_shape t"
        and least: "\<And>pre' t' post'. cs = pre' @ t' @ post' \<Longrightarrow> matches_shape date_shape t' \<Longrightarrow> length pre \<le> length pre'"
        unfolding leftmost_date_match_def by blast+
      have "leftmost_date_match (c # cs) (c # pre) t post"
        unfolding leftmost_date_match_def
      proof (intro conjI allI impI)
        show "c # cs = (c # pre) @ t @ post" using e by simp
        show "matches_shape date_shape t" by (rule m)
        fix pre' t' post' assume a: "c # cs = pre' @ t' @ post' \<and> matches_shape date_shape t'"
        with nohead obtain p0 where p: "pre' = c # p0" by (cases pre') auto
        with a have "cs = p0 @ t' @ post'" "matches_shape date_shape t'" by simp_all
        from least[OF this] p show "length (c # pre) \<le> length pre'" by simp
      qed
      then show ?L by blast
    qed
    with False Cons.IH show ?thesis by simp
  qed
qed

lemma foldl_dec_digits:
  "foldl (\<lambda>n c. 10 * n + (case digit_value c of Some v \<Rightarrow> v | None \<Rightarrow> 0)) a (dec_digits k n)
     = a * 10 ^ k + n mod 10 ^ k"
proof (induction k arbitrary: n)
  case 0
  show ?case by simp
next
  case (Suc k)
  have "n mod 10 < 10" by simp
  then have dv: "digit_value (48 + n mod 10) = Some (n mod 10)" by (rule digit_value_ascii)
  have "n mod (10 * 10 ^ k) = 10 * (n div 10 mod 10 ^ k) + n mod 10"
    by (rule mod_mult2_eq)
  with Suc[of "n div 10"] dv show ?case by (simp add: algebra_simps)
qed

lemma int_of_dec_digits: "n < 10 ^ k \<Longrightarrow> int_of_digits (dec_digits k n) = n"
  by (simp add: int_of_digits_def foldl_dec_digits)

lemma dec_digits2: "dec_digits 2 m = [48 + m div 10 mod 10, 48 + m mod 10]"
  by (simp add: numeral_2_eq_2)


lemma list_all_digit_dec: "list_all is_digit (dec_digits k n)"
  by (induction k arbitrary: n) (simp_all add: is_digit_ascii)

lemma length_dec_digits: "length (dec_digits k n) = k"
  by (induction k arbitrary: n) simp_all

lemma parse_month_dec:
  assumes "m < 100"
  shows "parse_month (dec_digits 2 m @ r) =
    (if 1 \<le> m \<and> m \<le> 12 then Some (m, r)
     else if 13 \<le> m then Some (m div 10, (48 + m mod 10) # r) else None)"
proof -
  define a where "a = m div 10"
  define b where "b = m mod 10"
  have m: "m = 10 * a + b" and a: "a < 10" and b: "b < 10"
    using assms by (simp_all add: a_def b_def)
  have dd: "dec_digits 2 m = [48 + a, 48 + b]"
    using a by (simp add: dec_digits2 a_def b_def)
  have dm: "m div 10 = a" "m mod 10 = b" by (simp_all add: a_def b_def)
  show ?thesis unfolding dd dm using a b by (auto simp: m in_range_def)
qed

lemma parse_day_dec:
  assumes "d < 100"
  shows "parse_day (dec_digits 2 d) =
    (if 1 \<le> d \<and> d \<le> 31 then Some (d, [])
     else if 32 \<le> d then Some (d div 10, [48 + d mod 10]) else None)"
proof -
  define a where "a = d div 10"
  define b where "b = d mod 10"
  have m: "d = 10 * a + b" and a: "a < 10" and b: "b < 10"
    using assms by (simp_all add: a_def b_def)
  have dd: "dec_digits 2 d = [48 + a, 48 + b]"
    using a by (simp add: dec_digits2 a_def b_def)
  have dm: "d div 10 = a" "d mod 10 = b" by (simp_all add: a_def b_def)
  have "int_of_digits [48 + a, 48 + b] = 10 * a + b"
    using a b by (simp add: int_of_digits_def digit_value_ascii)
  then show ?thesis unfolding dd dm using a b by (auto simp: m in_range_def is_digit_ascii)
qed


lemma strptime_ymd_text:
  assumes "y < 10000" "m < 100" "d < 100"
  shows "strptime (ymd_text y m d) = make_date y m d"
proof -
  let ?Y = "dec_digits 4 y"
  let ?R = "dec_digits 2 m @ 45 # dec_digits 2 d"
  have s: "ymd_text y m d = ?Y @ 45 # ?R" by (simp add: ymd_text_def)
  have len: "length ?Y = 4" by (rule length_dec_digits)
  have t4: "take 4 (ymd_text y m d) = ?Y" unfolding s using len by simp
  have n4: "ymd_text y m d ! 4 = 45" unfolding s using len by (simp add: nth_append)
  have d5: "drop 5 (ymd_text y m d) = ?R" unfolding s using len by simp
  have l5: "\<not> length (ymd_text y m d) < 5" unfolding s using len by simp
  have yv: "int_of_digits ?Y = y" using assms(1) by (simp add: int_of_dec_digits)
  have pm: "parse_month ?R =
    (if 1 \<le> m \<and> m \<le> 12 then Some (m, 45 # dec_digits 2 d)
     else if 13 \<le> m then Some (m div 10, (48 + m mod 10) # 45 # dec_digits 2 d) else None)"
    using parse_month_dec[OF assms(2), of "45 # dec_digits 2 d"] by simp
  have pd: "parse_day (dec_digits 2 d) =
    (if 1 \<le> d \<and> d \<le> 31 then Some (d, [])
     else if 32 \<le> d then Some (d div 10, [48 + d mod 10]) else None)"
    by (rule parse_day_dec[OF assms(3)])
  have dim: "days_in_month y m \<le> 31" by (simp add: days_in_month_def)
  show ?thesis
    using l5 dim by (auto simp: strptime_def t4 n4 d5 yv pm pd list_all_digit_dec make_date_def)
qed

lemma strptime_fallback: "strptime (py ''2000-01-01'') = Inr (2000, 1, 1)"
  by (simp add: py_def strptime_def is_digit_def digit_value_def nd_starts_def in_range_def
      make_date_def days_in_month_def is_leap_def int_of_digits_def)

lemma strptime_error: "strptime s = Inl e \<Longrightarrow> e = ValueError"
  by (auto simp: strptime_def make_date_def split: if_splits option.splits list.splits)

lemma extract_date_total: "\<exists>d. extract_date_from_dirname s = Inr d"
  by (auto simp: extract_date_from_dirname_def strptime_fallback dest: strptime_error
      split: option.splits sum.splits error.splits)

text \<open>
  Claim C2, as amended. The Date Extractor never raises. A name with no part that
  matches the pattern gives the fallback date 2000-01-01. Otherwise the leftmost match
  decides alone: when it is the text of a calendar date, that date is returned, and when
  it is not (month 13, 30 February, year 0), the fallback date is returned, whatever
  stands to the right of it.
\<close>

theorem extract_date_leftmost:
  "(\<exists>dt. extract_date_from_dirname s = Inr dt) \<and>
   ((\<nexists>pre t post. s = pre @ t @ post \<and> matches_shape date_shape t) \<longrightarrow>
      extract_date_from_dirname s = Inr (2000, 1, 1)) \<and>
   (\<forall>pre post y m d.
      leftmost_date_match s pre (ymd_text y m d) post \<and> y < 10000 \<and> m < 100 \<and> d < 100 \<longrightarrow>
      extract_date_from_dirname s = Inr (if valid_date y m d then (y, m, d) else (2000, 1, 1)))"
proof (intro conjI allI impI)
  show "\<exists>dt. extract_date_from_dirname s = Inr dt" by (rule extract_date_total)
next
  assume "\<nexists>pre t post. s = pre @ t @ post \<and> matches_shape date_shape t"
  then have "re_search_date s = None" by (simp add: re_search_date_None)
  then show "extract_date_from_dirname s = Inr (2000, 1, 1)"
    by (simp add: extract_date_from_dirname_def strptime_fallback)
next
  fix pre post y m d
  assume a: "leftmost_date_match s pre (ymd_text y m d) post \<and> y < 10000 \<and> m < 100 \<and> d < 100"
  then have "re_search_date s = Some (ymd_text y m d)"
    unfolding re_search_date_Some by blast
  moreover have "strptime (ymd_text y m d) = make_date y m d"
    using a by (simp add: strptime_ymd_text)
  ultimately show "extract_date_from_dirname s = Inr (if valid_date y m d then (y, m, d) else (2000, 1, 1))"
    by (simp add: extract_date_from_dirname_def make_date_def valid_date_def strptime_fallback)
qed

section \<open>Properties of the Footer Stripper\<close>

lemma has_tag_decompose_at [simp]: "has_tag names (decompose_at q c) = has_tag names c"
  by (cases c) (simp_all add: has_tag_def)

lemma positions_list_head:
  "e \<in> set (positions_list names i cs) \<Longrightarrow> \<exists>j r. fst e = j # r \<and> i \<le> j"
proof (induction cs arbitrary: i)
  case Nil
  then show ?case by simp
next
  case (Cons c cs)
  then show ?case by (fastforce split: if_splits)
qed

lemma positions_list_empty_iff:
  "positions_list names i cs = [] \<longleftrightarrow> (\<forall>c \<in> set cs. \<not> has_tag names c \<and> positions names c = [])"
  by (induction cs arbitrary: i) simp_all

lemma positions_list_empty_shift:
  "positions_list names i cs = [] \<Longrightarrow> positions_list names j cs = []"
  by (simp add: positions_list_empty_iff)

lemma positions_nonempty_path: "e \<in> set (positions names n) \<Longrightarrow> fst e \<noteq> []"
  by (cases n) (auto dest: positions_list_head)

lemma decompose_last:
  "positions names n \<noteq> [] \<Longrightarrow>
     positions names (decompose_at (fst (last (positions names n))) n)
       = map (shrink (fst (last (positions names n)))) (butlast (positions names n))"
  and decompose_list_last:
  "positions_list names i cs \<noteq> [] \<Longrightarrow>
     positions_list names i (decompose_list i (fst (last (positions_list names i cs))) cs)
       = map (shrink (fst (last (positions_list names i cs)))) (butlast (positions_list names i cs))"
proof (induction names n and names i cs rule: positions_positions_list.induct)
  case (1 names s)
  then show ?case by simp
next
  case (2 names s)
  then show ?case by simp
next
  case (3 names t a cs)
  then show ?case by simp
next
  case (4 names i)
  then show ?case by simp
next
  case (5 names i c cs)
  let ?H = "if has_tag names c then [([i], c)] else []"
  let ?A = "map (\<lambda>(q, n). (i # q, n)) (positions names c)"
  let ?B = "positions_list names (Suc i) cs"
  have L: "positions_list names i (c # cs) = ?H @ ?A @ ?B" by simp
  show ?case
  proof (cases "?B = []")
    case False
    then have lastB: "last (positions_list names i (c # cs)) = last ?B" by simp
    obtain j r where jr: "fst (last ?B) = j # r" and ij: "Suc i \<le> j"
      using positions_list_head[of "last ?B" names "Suc i" cs] False by auto
    have dl: "decompose_list i (j # r) (c # cs) = c # decompose_list (Suc i) (j # r) cs"
      using ij by simp
    have keepH: "map (shrink (j # r)) ?H = ?H"
      using ij by (simp add: shrink_def)
    have keepA: "map (shrink (j # r)) ?A = ?A"
      using ij by (auto simp: shrink_def)
    have bl: "butlast (?H @ ?A @ ?B) = ?H @ ?A @ butlast ?B"
      using False by (simp add: butlast_append)
    from "5.IH"(2)[OF False] have
      "positions_list names (Suc i) (decompose_list (Suc i) (j # r) cs) = map (shrink (j # r)) (butlast ?B)"
      by (simp add: jr)
    then show ?thesis
      unfolding lastB jr dl using keepH keepA bl by (simp del: positions_list.simps(2) add: L positions_list.simps(2)[of names i c "decompose_list (Suc i) (j # r) cs"])
  next
    case True
    note B = True
    show ?thesis
    proof (cases "positions names c = []")
      case False
      then have lst: "last (positions_list names i (c # cs)) = (\<lambda>(q, n). (i # q, n)) (last (positions names c))"
        using B by (simp add: last_map)
      define q where "q = fst (last (positions names c))"
      have fl: "fst (last (positions_list names i (c # cs))) = i # q"
        unfolding lst q_def by (simp add: case_prod_beta)
      have qne: "q \<noteq> []"
        unfolding q_def using False positions_nonempty_path[of "last (positions names c)" names c] by simp
      have dl: "decompose_list i (i # q) (c # cs) = decompose_at q c # cs"
        using qne by simp
      from "5.IH"(1)[OF False] have ih:
        "positions names (decompose_at q c) = map (shrink q) (butlast (positions names c))"
        by (simp add: q_def)
      have sh1: "map (shrink (i # q)) ?H = (if has_tag names c then [([i], decompose_at q c)] else [])"
        using qne by (cases q) (simp_all add: shrink_def)
      have sh2: "map (shrink (i # q)) (map (\<lambda>(q, n). (i # q, n)) xs)
                  = map (\<lambda>(q, n). (i # q, n)) (map (shrink q) xs)" for xs
        by (induction xs) (auto simp: shrink_def)
      have bl: "butlast (?H @ ?A @ ?B) = ?H @ map (\<lambda>(q, n). (i # q, n)) (butlast (positions names c))"
        using B False by (simp add: butlast_append map_butlast)
      show ?thesis
        unfolding fl dl using ih sh1 sh2 bl B by (simp add: L)
    next
      case True
      note A = True
      with B "5.prems" have H: "has_tag names c" by (auto split: if_splits)
      have "positions_list names i cs = []"
        using B by (rule positions_list_empty_shift)
      with A B H show ?thesis by simp
    qed
  qed
qed

lemma fst_shrink [simp]: "fst (shrink ql e) = fst e"
  by (simp add: shrink_def)

lemma decompose_suffix:
  assumes "k \<le> length (positions names t)"
  defines "t' \<equiv> foldl (\<lambda>soup (q, p). decompose_at q soup) t (take k (rev (positions names t)))"
  shows "map fst (positions names t') = take (length (positions names t) - k) (map fst (positions names t))
    \<and> (\<forall>j < length (positions names t) - k.
         (\<forall>i. length (positions names t) - k \<le> i \<and> i < length (positions names t) \<longrightarrow>
              \<not> strict_prefix (fst (positions names t ! j)) (fst (positions names t ! i)))
         \<longrightarrow> positions names t' ! j = positions names t ! j)"
  using assms(1) unfolding t'_def
proof (induction k)
  case 0
  show ?case by simp
next
  case (Suc k)
  let ?L = "positions names t"
  let ?n = "length ?L"
  let ?f = "\<lambda>soup (q, p). decompose_at q soup"
  let ?t1 = "foldl ?f t (take k (rev ?L))"
  from Suc.prems have k: "k < ?n" by simp
  then have klen: "k < length (rev ?L)" by simp
  from Suc.IH k have ih1: "map fst (positions names ?t1) = take (?n - k) (map fst ?L)"
    and ih2: "\<And>j. j < ?n - k \<Longrightarrow>
         (\<forall>i. ?n - k \<le> i \<and> i < ?n \<longrightarrow> \<not> strict_prefix (fst (?L ! j)) (fst (?L ! i)))
         \<Longrightarrow> positions names ?t1 ! j = ?L ! j"
    by simp_all
  have len1: "length (positions names ?t1) = ?n - k"
    using arg_cong[OF ih1, of length] by simp
  then have ne: "positions names ?t1 \<noteq> []" using k by auto
  have revk: "rev ?L ! k = ?L ! (?n - Suc k)"
    using k by (simp add: rev_nth)
  have lastpath: "fst (last (positions names ?t1)) = fst (?L ! (?n - Suc k))"
  proof -
    have "fst (last (positions names ?t1)) = last (map fst (positions names ?t1))"
      using ne by (simp add: last_map)
    also have "\<dots> = take (?n - k) (map fst ?L) ! (?n - k - 1)"
    proof -
      have "take (?n - k) (map fst ?L) \<noteq> []" using k by (cases ?L) auto
      moreover have "length (take (?n - k) (map fst ?L)) = ?n - k" by simp
      ultimately have "last (take (?n - k) (map fst ?L)) = take (?n - k) (map fst ?L) ! (?n - k - 1)"
        by (metis last_conv_nth)
      then show ?thesis unfolding ih1 .
    qed
    also have "\<dots> = fst (?L ! (?n - Suc k))"
      using k by simp
    finally show ?thesis .
  qed
  have step: "foldl ?f t (take (Suc k) (rev ?L)) = decompose_at (fst (last (positions names ?t1))) ?t1"
    using klen by (simp add: take_Suc_conv_app_nth revk lastpath case_prod_beta)
  have pos2: "positions names (foldl ?f t (take (Suc k) (rev ?L)))
      = map (shrink (fst (last (positions names ?t1)))) (butlast (positions names ?t1))"
    unfolding step by (rule decompose_last[OF ne])
  have A: "map fst (positions names (foldl ?f t (take (Suc k) (rev ?L)))) = take (?n - Suc k) (map fst ?L)"
  proof -
    have "map fst (positions names (foldl ?f t (take (Suc k) (rev ?L))))
        = butlast (map fst (positions names ?t1))"
      unfolding pos2 by (simp add: map_butlast comp_def)
    also have "\<dots> = take (?n - Suc k) (map fst ?L)"
      unfolding ih1 using k by (simp add: butlast_take)
    finally show ?thesis .
  qed
  have B: "positions names (foldl ?f t (take (Suc k) (rev ?L))) ! j = ?L ! j"
    if j: "j < ?n - Suc k"
      and np: "\<forall>i. ?n - Suc k \<le> i \<and> i < ?n \<longrightarrow> \<not> strict_prefix (fst (?L ! j)) (fst (?L ! i))"
    for j
  proof -
    have j1: "j < ?n - k" using j by simp
    have jb: "j < length (butlast (positions names ?t1))" using j len1 by simp
    have "\<forall>i. ?n - k \<le> i \<and> i < ?n \<longrightarrow> \<not> strict_prefix (fst (?L ! j)) (fst (?L ! i))"
    proof (intro allI impI)
      fix i assume "?n - k \<le> i \<and> i < ?n"
      then have "?n - Suc k \<le> i \<and> i < ?n" by arith
      with np show "\<not> strict_prefix (fst (?L ! j)) (fst (?L ! i))" by blast
    qed
    then have same: "positions names ?t1 ! j = ?L ! j"
      by (rule ih2[OF j1])
    have nsp: "\<not> strict_prefix (fst (?L ! j)) (fst (?L ! (?n - Suc k)))"
      using np k by simp
    have "positions names (foldl ?f t (take (Suc k) (rev ?L))) ! j
        = shrink (fst (last (positions names ?t1))) (butlast (positions names ?t1) ! j)"
      unfolding pos2 using jb by simp
    also have "butlast (positions names ?t1) ! j = positions names ?t1 ! j"
      using jb by (simp add: nth_butlast)
    also have "shrink (fst (last (positions names ?t1))) (positions names ?t1 ! j) = ?L ! j"
      unfolding same lastpath using nsp by (simp add: shrink_def)
    finally show ?thesis .
  qed
  from A B show ?case by blast
qed

lemma footer_run_le: "footer_run c \<le> 5" "footer_run c \<le> length (positions [py ''p''] c)"
proof -
  let ?L = "positions [py ''p''] c"
  have "length (takeWhile (\<lambda>(q, p). is_footer p) (take (min 5 (length ?L)) (rev ?L)))
      \<le> length (take (min 5 (length ?L)) (rev ?L))"
    by (rule length_takeWhile_le)
  then show "footer_run c \<le> 5" "footer_run c \<le> length ?L"
    by (simp_all add: footer_run_def Let_def)
qed

lemma remove_footer_elements_eq:
  "remove_footer_elements c =
     foldl (\<lambda>soup (q, p). decompose_at q soup) c (take (footer_run c) (rev (positions [py ''p''] c)))"
proof -
  let ?L = "positions [py ''p''] c"
  let ?xs = "take (min 5 (length ?L)) (rev ?L)"
  let ?P = "\<lambda>(q, p). is_footer p"
  have "takeWhile ?P ?xs = take (length (takeWhile ?P ?xs)) ?xs"
    by (rule takeWhile_eq_take)
  also have "\<dots> = take (min (length (takeWhile ?P ?xs)) (min 5 (length ?L))) (rev ?L)"
    by (rule take_take)
  also have "min (length (takeWhile ?P ?xs)) (min 5 (length ?L)) = length (takeWhile ?P ?xs)"
  proof (rule min_absorb1)
    have "length (takeWhile ?P ?xs) \<le> length ?xs" by (rule length_takeWhile_le)
    then show "length (takeWhile ?P ?xs) \<le> min 5 (length ?L)" by simp
  qed
  finally have eq: "takeWhile ?P ?xs = take (length (takeWhile ?P ?xs)) (rev ?L)" .
  show ?thesis
  proof (cases "length ?L < 3")
    case True
    then show ?thesis by (simp add: remove_footer_elements_def footer_run_def Let_def)
  next
    case False
    then have fr: "footer_run c = length (takeWhile ?P ?xs)"
      by (simp add: footer_run_def Let_def)
    from False have "remove_footer_elements c = foldl (\<lambda>soup (q, p). decompose_at q soup) c (takeWhile ?P ?xs)"
      by (simp add: remove_footer_elements_def Let_def)
    also have "\<dots> = foldl (\<lambda>soup (q, p). decompose_at q soup) c (take (length (takeWhile ?P ?xs)) (rev ?L))"
      by (rule arg_cong[OF eq])
    finally show ?thesis unfolding fr .
  qed
qed

lemma footer_run_match:
  assumes "j < footer_run c"
  shows "is_footer (snd (rev (positions [py ''p''] c) ! j))"
proof -
  let ?L = "positions [py ''p''] c"
  let ?xs = "take (min 5 (length ?L)) (rev ?L)"
  let ?P = "\<lambda>(q, p). is_footer p"
  from assms have j: "j < length (takeWhile ?P ?xs)"
    by (simp add: footer_run_def Let_def split: if_splits)
  then have "takeWhile ?P ?xs ! j \<in> set (takeWhile ?P ?xs)"
    by (rule nth_mem)
  then have "?P (takeWhile ?P ?xs ! j)"
    by (rule set_takeWhileD[THEN conjunct2])
  moreover have "takeWhile ?P ?xs ! j = ?xs ! j"
    using j by (rule takeWhile_nth)
  moreover have "j < min 5 (length ?L)"
    using j length_takeWhile_le[of ?P ?xs] by simp
  ultimately show ?thesis by (simp add: case_prod_beta)
qed

lemma footer_run_stop:
  assumes "3 \<le> length (positions [py ''p''] c)" "footer_run c < 5"
    "footer_run c < length (positions [py ''p''] c)"
  shows "\<not> is_footer (snd (rev (positions [py ''p''] c) ! footer_run c))"
proof -
  let ?L = "positions [py ''p''] c"
  let ?xs = "take (min 5 (length ?L)) (rev ?L)"
  let ?P = "\<lambda>(q, p). is_footer p"
  have fr: "footer_run c = length (takeWhile ?P ?xs)"
    using assms(1) by (simp add: footer_run_def Let_def)
  have "length (takeWhile ?P ?xs) < length ?xs"
    using assms(2,3) unfolding fr by simp
  then have "\<not> ?P (?xs ! length (takeWhile ?P ?xs))"
    by (rule nth_length_takeWhile)
  moreover have "?xs ! length (takeWhile ?P ?xs) = rev ?L ! footer_run c"
    using assms(2,3) unfolding fr by simp
  ultimately show ?thesis by (simp add: case_prod_beta)
qed

text \<open>
  Claim C3, as amended. With \<open>ps\<close> the paragraphs of the container before and \<open>rs\<close>
  those after the Footer Stripper, in document order: at most five paragraphs are
  removed; the positions that remain are an initial part of the positions before, so
  what is removed is the end of the list; every removed paragraph matches a heuristic;
  unless five were removed or none is left, the last paragraph that remains matches
  none; and a paragraph that remains is the same element as before unless a removed
  paragraph stood inside it.
\<close>

theorem footer_stripper_suffix:
  fixes content_div :: node
  defines "ps \<equiv> positions [py ''p''] content_div"
    and "rs \<equiv> positions [py ''p''] (remove_footer_elements content_div)"
  shows "length rs \<le> length ps \<and> length ps - length rs \<le> 5 \<and>
     map fst rs = take (length rs) (map fst ps) \<and>
     (\<forall>j. length rs \<le> j \<and> j < length ps \<longrightarrow> is_footer (snd (ps ! j))) \<and>
     (3 \<le> length ps \<and> 0 < length rs \<and> length ps - length rs < 5
        \<longrightarrow> \<not> is_footer (snd (ps ! (length rs - 1)))) \<and>
     (\<forall>j < length rs.
        (\<forall>i. length rs \<le> i \<and> i < length ps \<longrightarrow> \<not> strict_prefix (fst (ps ! j)) (fst (ps ! i)))
        \<longrightarrow> rs ! j = ps ! j)"
proof -
  let ?k = "footer_run content_div"
  have k5: "?k \<le> 5" and kn: "?k \<le> length ps"
    unfolding ps_def by (rule footer_run_le)+
  note suf = decompose_suffix[of ?k "[py ''p'']" content_div, folded remove_footer_elements_eq ps_def rs_def, OF kn]
  from suf have paths: "map fst rs = take (length ps - ?k) (map fst ps)" by blast
  have lrs: "length rs = length ps - ?k"
    using arg_cong[OF paths, of length] by simp
  have c1: "length rs \<le> length ps" using lrs by simp
  have c2: "length ps - length rs \<le> 5" using lrs k5 kn by simp
  have c3: "map fst rs = take (length rs) (map fst ps)" using paths lrs by simp
  have c4: "is_footer (snd (ps ! j))" if "length rs \<le> j \<and> j < length ps" for j
  proof -
    from that lrs kn have "length ps - Suc j < ?k" by arith
    then have "is_footer (snd (rev ps ! (length ps - Suc j)))"
      unfolding ps_def by (rule footer_run_match)
    moreover have "rev ps ! (length ps - Suc j) = ps ! j"
    proof -
      have "length ps - Suc j < length ps" using that by arith
      then have "rev ps ! (length ps - Suc j) = ps ! (length ps - Suc (length ps - Suc j))"
        by (rule rev_nth)
      moreover have "length ps - Suc (length ps - Suc j) = j" using that by arith
      ultimately show ?thesis by simp
    qed
    ultimately show ?thesis by simp
  qed
  have c5: "\<not> is_footer (snd (ps ! (length rs - 1)))"
    if "3 \<le> length ps \<and> 0 < length rs \<and> length ps - length rs < 5"
  proof -
    from that lrs kn have a: "3 \<le> length ps" "?k < 5" "?k < length ps" by simp_all
    have "\<not> is_footer (snd (rev ps ! ?k))"
      using footer_run_stop[of content_div] a unfolding ps_def by simp
    moreover have "rev ps ! ?k = ps ! (length rs - 1)"
    proof -
      have "rev ps ! ?k = ps ! (length ps - Suc ?k)"
        using a(3) by (rule rev_nth)
      moreover have "length ps - Suc ?k = length rs - 1" using lrs by arith
      ultimately show ?thesis by simp
    qed
    ultimately show ?thesis by simp
  qed
  have c6: "rs ! j = ps ! j"
    if "j < length rs" "\<forall>i. length rs \<le> i \<and> i < length ps \<longrightarrow> \<not> strict_prefix (fst (ps ! j)) (fst (ps ! i))" for j
    using suf that lrs by simp
  from c1 c2 c3 c4 c5 c6 show ?thesis by blast
qed

lemma map_snd_positions:
  "map snd (positions names n) = find_all names n"
  and map_snd_positions_list:
  "map snd (positions_list names i cs) = filter (has_tag names) (concat (map (\<lambda>c. c # descendants c) cs))"
proof (induction names n and names i cs rule: positions_positions_list.induct)
  case (5 names i c cs)
  then show ?case by (simp add: find_all_def comp_def case_prod_beta)
qed (simp_all add: find_all_def)

text \<open>
  Claim C4. A container with fewer than three paragraph elements comes back from the
  Footer Stripper as it went in, whatever its paragraphs match.
\<close>

theorem footer_stripper_skipped:
  "length (find_all [py ''p''] content_div) < 3 \<Longrightarrow> remove_footer_elements content_div = content_div"
proof -
  assume "length (find_all [py ''p''] content_div) < 3"
  then have "length (positions [py ''p''] content_div) < 3"
    using arg_cong[OF map_snd_positions[of "[py ''p'']" content_div], of length] by simp
  then show ?thesis by (simp add: remove_footer_elements_def)
qed

section \<open>Properties of the Directory Walker\<close>

lemma extract_date_of: "extract_date_from_dirname name = Inr (date_of name)"
  using extract_date_total[of name] by (auto simp: date_of_def)

lemma decorate_eq: "decorate xs = Inr (map (\<lambda>x. (date_of (fst x), x)) xs)"
  by (induction xs) (simp_all add: extract_date_of)

lemma insort_key_decorated:
  "insort_key fst (k x, x) (map (\<lambda>x. (k x, x)) ys) = map (\<lambda>x. (k x, x)) (insort_key k x ys)"
  by (induction ys) simp_all

lemma sort_key_decorated:
  "sort_key fst (map (\<lambda>x. (k x, x)) xs) = map (\<lambda>x. (k x, x)) (sort_key k xs)"
  by (induction xs) (simp_all add: insort_key_decorated)

lemma process_directory_eq:
  assumes "fs source_dir = Some (Dir names)"
  shows "process_directory fs source_dir =
     Inr (sort_key (\<lambda>x. date_of (fst x))
       (map (\<lambda>item. (item, path_join source_dir item)) (filter (is_article_dir fs source_dir) names)))"
  using assms
  by (simp add: process_directory_def listdir_def decorate_eq sort_key_decorated comp_def)

text \<open>
  Claim C9. When the source root can be listed, the Directory Walker returns the pairs
  (name, path) of exactly those names of the listing that are directories, do not begin
  with a dot and have an entry \<^verbatim>\<open>index.html\<close>, each as often as the listing has it; the
  result is sorted ascending by the Date Extractor's output on the name; and the names
  with one and the same date stand in the order of the listing.
\<close>

theorem directory_walker:
  assumes "fs source_dir = Some (Dir names)"
  shows "(\<forall>name. extract_date_from_dirname name = Inr (date_of name))
     \<and> (\<exists>all_dirs. process_directory fs source_dir = Inr all_dirs
     \<and> mset all_dirs = mset (map (\<lambda>item. (item, path_join source_dir item))
          (filter (\<lambda>item. path_isdir fs (path_join source_dir item) \<and> \<not> startswith item (py ''.'')
              \<and> path_exists fs (path_join (path_join source_dir item) (py ''index.html''))) names))
     \<and> sorted (map (\<lambda>x. date_of (fst x)) all_dirs)
     \<and> (\<forall>k. filter (\<lambda>x. date_of (fst x) = k) all_dirs =
          map (\<lambda>item. (item, path_join source_dir item))
            (filter (\<lambda>item. date_of item = k)
              (filter (\<lambda>item. path_isdir fs (path_join source_dir item) \<and> \<not> startswith item (py ''.'')
                \<and> path_exists fs (path_join (path_join source_dir item) (py ''index.html''))) names))))"
proof -
  let ?cond = "\<lambda>item. path_isdir fs (path_join source_dir item) \<and> \<not> startswith item (py ''.'')
              \<and> path_exists fs (path_join (path_join source_dir item) (py ''index.html''))"
  let ?xs = "map (\<lambda>item. (item, path_join source_dir item)) (filter ?cond names)"
  let ?k = "\<lambda>x. date_of (fst x)"
  have c: "is_article_dir fs source_dir = ?cond"
    by (rule ext) (simp add: is_article_dir_def)
  have e: "process_directory fs source_dir = Inr (sort_key ?k ?xs)"
    using process_directory_eq[of fs source_dir names] assms unfolding c by simp
  have m: "mset (sort_key ?k ?xs) = mset ?xs" by simp
  have s: "sorted (map ?k (sort_key ?k ?xs))" by (rule sorted_sort_key)
  have st: "filter (\<lambda>x. ?k x = k) (sort_key ?k ?xs) =
      map (\<lambda>item. (item, path_join source_dir item)) (filter (\<lambda>item. date_of item = k) (filter ?cond names))" for k
  proof -
    have "filter (\<lambda>x. ?k x = k) (sort_key ?k ?xs) = filter (\<lambda>x. ?k x = k) ?xs"
      by (rule sort_key_stable)
    also have "\<dots> = map (\<lambda>item. (item, path_join source_dir item)) (filter (\<lambda>item. date_of item = k) (filter ?cond names))"
      by (simp add: filter_map comp_def)
    finally show ?thesis .
  qed
  from e m s st have "\<exists>all_dirs. process_directory fs source_dir = Inr all_dirs
     \<and> mset all_dirs = mset ?xs
     \<and> sorted (map ?k all_dirs)
     \<and> (\<forall>k. filter (\<lambda>x. ?k x = k) all_dirs =
          map (\<lambda>item. (item, path_join source_dir item)) (filter (\<lambda>item. date_of item = k) (filter ?cond names)))"
    by blast
  then show ?thesis using extract_date_of by blast
qed

section \<open>Properties of the Book Assembler\<close>

lemma add_item_fields [simp]:
  "spine (add_item it self) = spine self" "toc (add_item it self) = toc self"
  "chapters (add_item it self) = chapters self"
  by (simp_all add: add_item_def)

lemma embed_image_keeps:
  assumes "embed_image fs dir_path chapter_id img_path (self, chap) = Inr (self', chap')"
  shows "spine self' = spine self \<and> toc self' = toc self \<and> chapters self' = chapters self
    \<and> html_title chap' = html_title chap \<and> file_name chap' = file_name chap"
  using assms by (auto simp: embed_image_def Let_def split: if_splits sum.splits)

lemma embed_images_keeps:
  assumes "embed_images fs dir_path chapter_id imgs (self, chap) = Inr (self', chap')"
  shows "spine self' = spine self \<and> toc self' = toc self \<and> chapters self' = chapters self
    \<and> html_title chap' = html_title chap \<and> file_name chap' = file_name chap"
  using assms
proof (induction imgs arbitrary: self chap)
  case Nil
  then show ?case by simp
next
  case (Cons img imgs)
  from Cons.prems obtain self1 chapter1 where
    s1: "embed_image fs dir_path chapter_id img (self, chap) = Inr (self1, chapter1)"
    and r: "embed_images fs dir_path chapter_id imgs (self1, chapter1) = Inr (self', chap')"
    by (auto split: sum.splits)
  from embed_image_keeps[OF s1] Cons.IH[OF r] show ?case by simp
qed

lemma process_html_file_keeps:
  assumes "process_html_file lxml fs dir_info chapter_id self = Inr (self', res)"
  shows "spine self' = spine self \<and> toc self' = toc self \<and> chapters self' = chapters self"
  using assms
  by (auto simp: process_html_file_def Let_def split: prod.splits if_splits sum.splits
      dest!: embed_images_keeps)

lemma process_html_file_chapter:
  assumes "process_html_file lxml fs dir_info chapter_id self = Inr (self', Some (chap, title))"
  shows "html_title chap = title \<and> file_name chap = py ''chapter_'' @ str_nat chapter_id @ py ''.xhtml''"
  using assms
  by (auto simp: process_html_file_def Let_def split: prod.splits if_splits sum.splits
      dest!: embed_images_keeps)

lemma process_html_file_some:
  assumes "process_html_file lxml fs dir_info chapter_id self = Inr (self', res)"
    and "path_exists fs (path_join (snd dir_info) (py ''index.html''))"
  shows "res \<noteq> None"
  using assms
  by (auto simp: process_html_file_def Let_def split: prod.splits if_splits sum.splits)

lemma process_articles_chapters:
  assumes "process_articles lxml fs i dirs (self, tc) = Inr (self', tc')"
    and "\<forall>d \<in> set dirs. path_exists fs (path_join (snd d) (py ''index.html''))"
  shows "\<exists>chs. length chs = length dirs
    \<and> spine self' = spine self @ map SpineItem chs
    \<and> chapters self' = chapters self @ chs
    \<and> toc self' = toc self @ chapter_links i chs
    \<and> (\<forall>j < length dirs. \<exists>s s'.
          process_html_file lxml fs (dirs ! j) (i + j + 1) s = Inr (s', Some (chs ! j, html_title (chs ! j)))
          \<and> file_name (chs ! j) = py ''chapter_'' @ str_nat (i + j + 1) @ py ''.xhtml'')"
  using assms
proof (induction dirs arbitrary: i self tc)
  case Nil
  then show ?case by simp
next
  case (Cons d dirs)
  from Cons.prems(1) obtain self1 res where
    p: "process_html_file lxml fs d (i + 1) self = Inr (self1, res)"
    by (auto split: sum.splits)
  from Cons.prems(2) have ex: "path_exists fs (path_join (snd d) (py ''index.html''))" by simp
  from process_html_file_some[OF p ex] obtain chap title where res: "res = Some (chap, title)"
    by (cases res) auto
  note keeps = process_html_file_keeps[OF p]
  from process_html_file_chapter[OF p[unfolded res]]
  have ti: "html_title chap = title"
    and fn: "file_name chap = py ''chapter_'' @ str_nat (i + 1) @ py ''.xhtml''" by simp_all
  define self3 where "self3 = (add_item (Html chap) self1)\<lparr>
      chapters := chapters (add_item (Html chap) self1) @ [chap],
      spine := spine (add_item (Html chap) self1) @ [SpineItem chap],
      toc := toc (add_item (Html chap) self1) @ [\<lparr>href = file_name chap, link_title = title,
                                                  link_uid = py ''chapter_'' @ str_nat (i + 1)\<rparr>]\<rparr>"
  from Cons.prems(1) p res have rest:
    "process_articles lxml fs (i + 1) dirs (self3, tc @ toc_entry (fst d) chap title) = Inr (self', tc')"
    by (simp add: self3_def Let_def)
  from Cons.prems(2) have exs: "\<forall>d \<in> set dirs. path_exists fs (path_join (snd d) (py ''index.html''))"
    by simp
  from Cons.IH[OF rest exs] obtain chs where
    len: "length chs = length dirs"
    and sp: "spine self' = spine self3 @ map SpineItem chs"
    and ch: "chapters self' = chapters self3 @ chs"
    and tc: "toc self' = toc self3 @ chapter_links (i + 1) chs"
    and each: "\<forall>j < length dirs. \<exists>s s'.
          process_html_file lxml fs (dirs ! j) (i + 1 + j + 1) s = Inr (s', Some (chs ! j, html_title (chs ! j)))
          \<and> file_name (chs ! j) = py ''chapter_'' @ str_nat (i + 1 + j + 1) @ py ''.xhtml''"
    by blast
  have s3: "spine self3 = spine self @ [SpineItem chap]"
    "chapters self3 = chapters self @ [chap]"
    "toc self3 = toc self @ [chapter_link (i + 1) chap]"
    using keeps ti by (simp_all add: self3_def chapter_link_def)
  have "length (chap # chs) = length (d # dirs)" using len by simp
  moreover have "spine self' = spine self @ map SpineItem (chap # chs)" using sp s3 by simp
  moreover have "chapters self' = chapters self @ (chap # chs)" using ch s3 by simp
  moreover have "toc self' = toc self @ chapter_links i (chap # chs)" using tc s3 by simp
  moreover have "\<forall>j < length (d # dirs). \<exists>s s'.
          process_html_file lxml fs ((d # dirs) ! j) (i + j + 1) s
            = Inr (s', Some ((chap # chs) ! j, html_title ((chap # chs) ! j)))
          \<and> file_name ((chap # chs) ! j) = py ''chapter_'' @ str_nat (i + j + 1) @ py ''.xhtml''"
  proof (intro allI impI)
    fix j assume j: "j < length (d # dirs)"
    show "\<exists>s s'. process_html_file lxml fs ((d # dirs) ! j) (i + j + 1) s
            = Inr (s', Some ((chap # chs) ! j, html_title ((chap # chs) ! j)))
          \<and> file_name ((chap # chs) ! j) = py ''chapter_'' @ str_nat (i + j + 1) @ py ''.xhtml''"
    proof (cases j)
      case 0
      with p res ti fn show ?thesis by auto
    next
      case (Suc j')
      with j have "j' < length dirs" by simp
      with each Suc show ?thesis by simp
    qed
  qed
  ultimately show ?case by blast
qed

lemma process_directory_exists:
  assumes "process_directory fs source_dir = Inr all_dirs"
  shows "\<forall>d \<in> set all_dirs. path_exists fs (path_join (snd d) (py ''index.html''))"
proof -
  from assms obtain names where l: "fs source_dir = Some (Dir names)"
    by (auto simp: process_directory_def listdir_def split: option.splits entry.splits sum.splits)
  from process_directory_eq[of fs source_dir names] l assms
  have "all_dirs = sort_key (\<lambda>x. date_of (fst x))
       (map (\<lambda>item. (item, path_join source_dir item)) (filter (is_article_dir fs source_dir) names))"
    by simp
  then show ?thesis by (auto simp: is_article_dir_def)
qed

lemma insert_at_1: "insert_at (Suc 0) x (a # as) = a # x # as"
  by (simp add: insert_at_def)

lemma insert_at_0: "insert_at 0 x as = x # as"
  by (simp add: insert_at_def)

lemma create_epub_result:
  assumes "create_epub lxml today fs source_dir init_converter = Inr c"
  shows "\<exists>all_dirs chs tc1.
      process_directory fs source_dir = Inr all_dirs
    \<and> book_spine (book c) = [SpineId (py ''nav''), SpineItem (toc_page_of (tc1 @ py ''</ul>'')),
          SpineItem (cover_page (length all_dirs) today)] @ map SpineItem chs
    \<and> length chs = length all_dirs
    \<and> (\<forall>j < length all_dirs.
          file_name (chs ! j) = py ''chapter_'' @ str_nat (j + 1) @ py ''.xhtml''
          \<and> (\<exists>s s'. process_html_file lxml fs (all_dirs ! j) (j + 1) s
                = Inr (s', Some (chs ! j, html_title (chs ! j)))))
    \<and> book_toc (book c) =
        \<lparr>href = py ''toc.xhtml'', link_title = [30446, 24405], link_uid = py ''toc''\<rparr> # chapter_links 0 chs"
proof -
  from assms obtain all_dirs where pd: "process_directory fs source_dir = Inr all_dirs"
    by (auto simp: create_epub_def split: sum.splits)
  define cover where "cover = cover_page (length all_dirs) today"
  define self2 where "self2 = (add_item (Html cover) init_converter)\<lparr>
      spine := spine (add_item (Html cover) init_converter) @ [SpineItem cover]\<rparr>"
  define tc0 where "tc0 = py ''<h1>'' @ [30446, 24405] @ py ''</h1><ul>''"
  from assms pd obtain self3 tc1 where
    pa: "process_articles lxml fs 0 all_dirs (self2, tc0) = Inr (self3, tc1)"
    by (auto simp: create_epub_def Let_def cover_def self2_def tc0_def split: sum.splits prod.splits)
  define tp where "tp = toc_page_of (tc1 @ py ''</ul>'')"
  from process_articles_chapters[OF pa process_directory_exists[OF pd]] obtain chs where
    len: "length chs = length all_dirs"
    and sp: "spine self3 = spine self2 @ map SpineItem chs"
    and tc: "toc self3 = toc self2 @ chapter_links 0 chs"
    and each: "\<forall>j < length all_dirs. \<exists>s s'.
          process_html_file lxml fs (all_dirs ! j) (0 + j + 1) s = Inr (s', Some (chs ! j, html_title (chs ! j)))
          \<and> file_name (chs ! j) = py ''chapter_'' @ str_nat (0 + j + 1) @ py ''.xhtml''"
    by blast
  have sp2: "spine self2 = [SpineId (py ''nav''), SpineItem cover]"
    and tc2: "toc self2 = []"
    by (simp_all add: self2_def init_converter_def)
  from assms pd pa have c: "c = add_item EpubNav (add_item EpubNcx
      (let self4 = add_item (Html tp) self3;
           self5 = self4\<lparr>spine := insert_at 1 (SpineItem tp) (spine self4)\<rparr>;
           self6 = self5\<lparr>toc := insert_at 0 \<lparr>href = py ''toc.xhtml'', link_title = [30446, 24405],
                                                 link_uid = py ''toc''\<rparr> (toc self5)\<rparr>
       in self6\<lparr>book := (book self6)\<lparr>book_spine := spine self6, book_toc := toc self6\<rparr>\<rparr>))"
    by (simp add: create_epub_def Let_def cover_def self2_def tc0_def tp_def)
  have bs: "book_spine (book c) = [SpineId (py ''nav''), SpineItem tp, SpineItem cover] @ map SpineItem chs"
    unfolding c by (simp add: Let_def add_item_def sp sp2 insert_at_1)
  have bt: "book_toc (book c) =
      \<lparr>href = py ''toc.xhtml'', link_title = [30446, 24405], link_uid = py ''toc''\<rparr> # chapter_links 0 chs"
    unfolding c by (simp add: Let_def add_item_def tc tc2 insert_at_0)
  have each': "\<forall>j < length all_dirs.
          file_name (chs ! j) = py ''chapter_'' @ str_nat (j + 1) @ py ''.xhtml''
          \<and> (\<exists>s s'. process_html_file lxml fs (all_dirs ! j) (j + 1) s
                = Inr (s', Some (chs ! j, html_title (chs ! j))))"
    using each by auto
  from pd bs len each' bt show ?thesis unfolding tp_def cover_def by blast
qed

text \<open>
  Claim C1, as amended. When the assembler returns, the spine of the book is the
  identifier \<^verbatim>\<open>nav\<close>, then the cover page and the page of contents (in one order or the
  other), then the chapters; there is one chapter for each directory of the Directory
  Walker's sorted list, in that order, the chapter with ordinal \<open>j + 1\<close> made from the
  directory at index \<open>j\<close>; and the navigation list is the link to the page of contents
  followed by one link for each chapter in spine order.
\<close>

theorem book_spine_and_navigation:
  assumes "create_epub lxml today fs source_dir init_converter = Inr c"
  shows "\<exists>all_dirs chs cover_page toc_page x y.
      process_directory fs source_dir = Inr all_dirs
    \<and> file_name cover_page = py ''cover.xhtml'' \<and> file_name toc_page = py ''toc.xhtml''
    \<and> book_spine (book c) = [SpineId (py ''nav''), x, y] @ map SpineItem chs
    \<and> {x, y} = {SpineItem cover_page, SpineItem toc_page}
    \<and> length chs = length all_dirs
    \<and> (\<forall>j < length all_dirs.
          file_name (chs ! j) = py ''chapter_'' @ str_nat (j + 1) @ py ''.xhtml''
          \<and> (\<exists>s s'. process_html_file lxml fs (all_dirs ! j) (j + 1) s
                = Inr (s', Some (chs ! j, html_title (chs ! j)))))
    \<and> book_toc (book c) =
        \<lparr>href = py ''toc.xhtml'', link_title = [30446, 24405], link_uid = py ''toc''\<rparr> # chapter_links 0 chs"
proof -
  from create_epub_result[OF assms] obtain all_dirs chs tc1 where
    pd: "process_directory fs source_dir = Inr all_dirs"
    and bs: "book_spine (book c) = [SpineId (py ''nav''), SpineItem (toc_page_of (tc1 @ py ''</ul>'')),
          SpineItem (cover_page (length all_dirs) today)] @ map SpineItem chs"
    and len: "length chs = length all_dirs"
    and each: "\<forall>j < length all_dirs.
          file_name (chs ! j) = py ''chapter_'' @ str_nat (j + 1) @ py ''.xhtml''
          \<and> (\<exists>s s'. process_html_file lxml fs (all_dirs ! j) (j + 1) s
                = Inr (s', Some (chs ! j, html_title (chs ! j))))"
    and bt: "book_toc (book c) =
        \<lparr>href = py ''toc.xhtml'', link_title = [30446, 24405], link_uid = py ''toc''\<rparr> # chapter_links 0 chs"
    by blast
  let ?cover = "cover_page (length all_dirs) today"
  let ?tp = "toc_page_of (tc1 @ py ''</ul>'')"
  have f1: "file_name ?cover = py ''cover.xhtml''" by (simp add: cover_page_def)
  have f2: "file_name ?tp = py ''toc.xhtml''" by (simp add: toc_page_of_def)
  have set2: "{SpineItem ?tp, SpineItem ?cover} = {SpineItem ?cover, SpineItem ?tp}" by auto
  from pd f1 f2 bs set2 len each bt show ?thesis by blast
qed

lemma create_epub_returns:
  assumes "process_directory fs source_dir = Inr all_dirs"
    and "\<And>self tc. \<exists>self' tc'. process_articles lxml fs 0 all_dirs (self, tc) = Inr (self', tc')"
  shows "\<exists>c. create_epub lxml today fs source_dir self0 = Inr c"
proof -
  obtain self' tc' where "process_articles lxml fs 0 all_dirs
      ((add_item (Html (cover_page (length all_dirs) today)) self0)\<lparr>
         spine := spine (add_item (Html (cover_page (length all_dirs) today)) self0)
           @ [SpineItem (cover_page (length all_dirs) today)]\<rparr>,
       py ''<h1>'' @ [30446, 24405] @ py ''</h1><ul>'')
      = Inr (self', tc')"
    using assms(2) by blast
  then show ?thesis
    by (simp add: create_epub_def assms(1) Let_def)
qed


section \<open>Properties of the Content Extractor\<close>

lemma has_tag_map_attrs [simp]: "has_tag names (map_attrs f n) = has_tag names n"
  by (cases n) (simp_all add: has_tag_def)

lemma descendants_map_attrs:
  "descendants (map_attrs f n) = map (map_attrs f) (descendants n)"
proof (induction n)
  case (Element t a cs)
  have "concat (map (\<lambda>c. c # descendants c) (map (map_attrs f) cs))
      = map (map_attrs f) (concat (map (\<lambda>c. c # descendants c) cs))"
    using Element.IH by (induction cs) simp_all
  then show ?case by simp
qed simp_all

lemma find_all_map_attrs:
  "find_all names (map_attrs f n) = map (map_attrs f) (find_all names n)"
  by (simp add: find_all_def descendants_map_attrs filter_map comp_def)

lemma map_of_filter_keys:
  "map_of (filter (\<lambda>(k, v). P k) a) k = (if P k then map_of a k else None)"
  by (induction a) auto

lemma process_img_keys:
  "map_of (process_img a) k = Some v \<Longrightarrow> k = py ''src'' \<or> k = py ''alt''"
  by (auto simp: process_img_def Let_def map_of_filter_keys split: if_splits)

lemma process_img_src_kept:
  "\<not> startswith (get_attr a (py ''src'')) (py ''./assets/'') \<Longrightarrow>
     map_of (process_img a) (py ''src'') = map_of a (py ''src'')"
  by (simp add: process_img_def Let_def map_of_filter_keys)

lemma img_sources_prefix: "s \<in> set (img_sources t) \<Longrightarrow> startswith s (py ''./assets/'')"
  by (auto simp: img_sources_def)

lemma find_all_img_cases:
  "e \<in> set (find_all [py ''img''] t) \<Longrightarrow> \<exists>a cs. e = Element (py ''img'') a cs"
  by (cases e) (auto simp: find_all_def has_tag_def)

text \<open>
  Claim C10. The images of the cleaned tree are the images of the tree before the loop,
  each with its attributes changed; every one of them, whatever its source, has no
  attribute but \<^verbatim>\<open>src\<close> and \<^verbatim>\<open>alt\<close>; an image whose source does not start with
  \<^verbatim>\<open>./assets/\<close> keeps its source and is not in the list of image files. The last part
  says that this tree and this list are what \<^verbatim>\<open>clean_html_content\<close> returns.
\<close>

theorem image_attributes:
  "find_all [py ''img''] (map_attrs format_img t) = map (map_attrs format_img) (find_all [py ''img''] t)
   \<and> (\<forall>e \<in> set (find_all [py ''img''] t).
        (\<forall>k. attr_get (map_attrs format_img e) k \<noteq> None \<longrightarrow> k = py ''src'' \<or> k = py ''alt'')
        \<and> (\<not> startswith (get_attr (node_attrs e) (py ''src'')) (py ''./assets/'') \<longrightarrow>
              attr_get (map_attrs format_img e) (py ''src'') = attr_get e (py ''src'')
              \<and> get_attr (node_attrs e) (py ''src'') \<notin> set (img_sources t)))
   \<and> (processed_content (clean_soup (lxml html_content)) = Some t \<longrightarrow>
        soup_content (clean_soup (lxml html_content)) = Some (map_attrs format_img t)
        \<and> clean_html_content lxml [] html_content =
            (extract_title (clean_soup (lxml html_content)), str_soup (map_attrs format_img t), img_sources t))"
proof (intro conjI ballI allI impI)
  show "find_all [py ''img''] (map_attrs format_img t) = map (map_attrs format_img) (find_all [py ''img''] t)"
    by (rule find_all_map_attrs)
next
  fix e k
  assume e: "e \<in> set (find_all [py ''img''] t)" and k: "attr_get (map_attrs format_img e) k \<noteq> None"
  from find_all_img_cases[OF e] obtain a cs where "e = Element (py ''img'') a cs" by blast
  with k show "k = py ''src'' \<or> k = py ''alt''"
    by (auto simp: attr_get_def format_img_def dest: process_img_keys)
next
  fix e
  assume e: "e \<in> set (find_all [py ''img''] t)"
    and n: "\<not> startswith (get_attr (node_attrs e) (py ''src'')) (py ''./assets/'')"
  from find_all_img_cases[OF e] obtain a cs where "e = Element (py ''img'') a cs" by blast
  with n show "attr_get (map_attrs format_img e) (py ''src'') = attr_get e (py ''src'')"
    by (simp add: attr_get_def format_img_def node_attrs_def process_img_src_kept)
next
  fix e
  assume "\<not> startswith (get_attr (node_attrs e) (py ''src'')) (py ''./assets/'')"
  then show "get_attr (node_attrs e) (py ''src'') \<notin> set (img_sources t)"
    using img_sources_prefix by blast
next
  assume "processed_content (clean_soup (lxml html_content)) = Some t"
  then show "soup_content (clean_soup (lxml html_content)) = Some (map_attrs format_img t)"
    by (simp add: soup_content_def)
next
  assume "processed_content (clean_soup (lxml html_content)) = Some t"
  then show "clean_html_content lxml [] html_content =
            (extract_title (clean_soup (lxml html_content)), str_soup (map_attrs format_img t), img_sources t)"
    by (simp add: clean_html_content_def)
qed

lemma has_tag_remove_where [simp]: "has_tag names (remove_where P n) = has_tag names n"
  by (cases n) (simp_all add: has_tag_def)

lemma attr_get_remove_where [simp]: "attr_get (remove_where P n) k = attr_get n k"
  by (cases n) (simp_all add: attr_get_def)

lemma descendants_remove_where:
  "e' \<in> set (descendants (remove_where P n)) \<Longrightarrow> \<exists>e \<in> set (descendants n). e' = remove_where P e"
proof (induction n arbitrary: e')
  case (Element t a cs)
  from Element.prems obtain c where c: "c \<in> set cs" "\<not> P c"
    and e: "e' = remove_where P c \<or> e' \<in> set (descendants (remove_where P c))"
    by auto
  from e show ?case
  proof
    assume "e' = remove_where P c"
    with c show ?thesis by auto
  next
    assume "e' \<in> set (descendants (remove_where P c))"
    from Element.IH[OF c(1) this] obtain e where "e \<in> set (descendants c)" "e' = remove_where P e" by blast
    with c show ?thesis by auto
  qed
qed simp_all

lemma descendants_clean_soup:
  assumes "e' \<in> set (descendants (clean_soup soup))"
  shows "\<exists>e \<in> set (descendants soup). \<forall>k. attr_get e' k = attr_get e k"
proof -
  from assms obtain e1 where e1: "e1 \<in> set (descendants (remove_where (has_tag unwanted_tags) soup))"
    and a: "e' = remove_where is_comment_string e1"
    unfolding clean_soup_def by (blast dest: descendants_remove_where)
  from descendants_remove_where[OF e1] obtain e where "e \<in> set (descendants soup)"
    and b: "e1 = remove_where (has_tag unwanted_tags) e" by blast
  with a show ?thesis by auto
qed

lemma find_None_iff: "find P xs = None \<longleftrightarrow> (\<forall>x \<in> set xs. \<not> P x)"
  by (induction xs) auto

lemma no_container:
  assumes "\<forall>e \<in> set (descendants soup). \<not> has_id (py ''js_content'') e \<and> \<not> has_class (py ''rich_media_content'') e"
  shows "find_content_div (clean_soup soup) = None"
proof -
  have "\<not> has_id (py ''js_content'') e' \<and> \<not> has_class (py ''rich_media_content'') e'"
    if "e' \<in> set (descendants (clean_soup soup))" for e'
  proof -
    from descendants_clean_soup[OF that] obtain e where "e \<in> set (descendants soup)"
      and "\<forall>k. attr_get e' k = attr_get e k" by blast
    with assms show ?thesis by (auto simp: has_id_def has_class_def)
  qed
  then show ?thesis
    by (auto simp: find_content_div_def find_None_iff split: option.splits)
qed

lemma str_in_append: "str_in p (a @ p @ b)"
proof (induction a)
  case Nil
  have "prefix p (p @ b)" by simp
  then show ?case by (cases "p @ b") auto
next
  case (Cons x a)
  then show ?case by simp
qed

text \<open>
  Claim C7. For a document none of whose elements has the identifier \<^verbatim>\<open>js_content\<close> or
  the class \<^verbatim>\<open>rich_media_content\<close>, \<^verbatim>\<open>clean_html_content\<close> returns the extracted title with
  the placeholder markup, and \<^verbatim>\<open>process_html_file\<close> on a directory with this entry
  document returns a chapter that holds the placeholder, not an error, so that the loop
  over the articles goes on.
\<close>

theorem missing_container_placeholder:
  assumes "\<forall>e \<in> set (descendants (lxml html_content)).
      \<not> has_id (py ''js_content'') e \<and> \<not> has_class (py ''rich_media_content'') e"
  shows "clean_html_content lxml imgs html_content =
      (extract_title (clean_soup (lxml html_content)), py ''<p>Content not found</p>'', imgs)
    \<and> (read_text fs (path_join dir_path (py ''index.html'')) = Inr html_content \<longrightarrow>
        (\<exists>ch t. process_html_file lxml fs (dir_name, dir_path) k self
            = Inr (self\<lparr>image_files_to_process := []\<rparr>, Some (ch, t))
          \<and> str_in (py ''<p>Content not found</p>'') (content ch)))"
proof (intro conjI impI)
  from no_container[OF assms]
  show c: "clean_html_content lxml imgs html_content =
      (extract_title (clean_soup (lxml html_content)), py ''<p>Content not found</p>'', imgs)" for imgs
    by (simp add: clean_html_content_def processed_content_def)
  assume r: "read_text fs (path_join dir_path (py ''index.html'')) = Inr html_content"
  then have ex: "path_exists fs (path_join dir_path (py ''index.html''))"
    by (auto simp: read_text_def path_exists_def split: option.splits)
  let ?title = "if extract_title (clean_soup (lxml html_content)) = [] then dir_name
                else extract_title (clean_soup (lxml html_content))"
  let ?pre = "[10] @ py ''        <h1>'' @ ?title @ py ''</h1>'' @ [10] @
                              py ''        <p class='' @ [34] @ py ''center'' @ [34] @ py ''><strong>'' @
                              date_str_of dir_name @ py ''</strong></p>'' @ [10] @ py ''        ''"
  have s: "str_in (py ''<p>Content not found</p>'') (?pre @ py ''<p>Content not found</p>'' @ ([10] @ py ''        ''))"
    by (rule str_in_append)
  show "\<exists>ch t. process_html_file lxml fs (dir_name, dir_path) k self
            = Inr (self\<lparr>image_files_to_process := []\<rparr>, Some (ch, t))
          \<and> str_in (py ''<p>Content not found</p>'') (content ch)"
    using s by (simp add: process_html_file_def ex r c Let_def)
qed

section \<open>Properties of the Style Normalizer\<close>

lemma has_tag_insert_newlines [simp]: "has_tag names (insert_newlines n) = has_tag names n"
  by (cases n) (simp_all add: has_tag_def)

lemma has_tag_Text [simp]: "\<not> has_tag names (Text s)"
  by (simp add: has_tag_def)

lemma filter_descendants_insert_newlines:
  "filter (has_tag names) (descendants (insert_newlines n))
     = map insert_newlines (filter (has_tag names) (descendants n))"
  and filter_descendants_insert_newlines_list:
  "filter (has_tag names) (concat (map (\<lambda>c. c # descendants c) (insert_newlines_list cs)))
     = map insert_newlines (filter (has_tag names) (concat (map (\<lambda>c. c # descendants c) cs)))"
  by (induction n and cs rule: insert_newlines_insert_newlines_list.induct) simp_all

lemma find_all_insert_newlines:
  "find_all names (insert_newlines n) = map insert_newlines (find_all names n)"
  by (simp add: find_all_def filter_descendants_insert_newlines)

lemma find_all_preserve_formatting:
  "find_all names (preserve_formatting d)
     = map (\<lambda>e. insert_newlines (map_attrs format_h (map_attrs format_p e))) (find_all names (soup_of_fragment d))"
  by (simp add: preserve_formatting_def find_all_insert_newlines find_all_map_attrs comp_def)

lemma find_all_element:
  "e \<in> set (find_all names t) \<Longrightarrow> \<exists>tag a cs. e = Element tag a cs \<and> tag \<in> set names"
  by (cases e) (auto simp: find_all_def has_tag_def)

lemma p_not_heading: "py ''p'' \<notin> set heading_tags"
  by (simp add: heading_tags_def py_def)

lemma map_of_update_same: "map_of (AList.update k v a) k = Some v"
  by (simp add: update_conv')

lemma map_of_delete_same: "map_of (AList.delete k a) k = None"
  by (simp add: delete_conv')

lemma split_on_nonempty: "split_on c s \<noteq> []"
  by (induction s) (auto split: list.splits)

lemma split_on_no_sep: "c \<notin> set s \<Longrightarrow> split_on c s = [s]"
  by (induction s) auto

lemma split_on_append: "c \<notin> set a \<Longrightarrow> split_on c (a @ c # b) = a # split_on c b"
  by (induction a) auto

lemma split_on_join:
  assumes "\<forall>it \<in> set (x # xs). 59 \<notin> set it" "59 \<notin> set pre"
  shows "split_on 59 (pre @ join (py ''; '') (x # xs)) = (pre @ x) # map (\<lambda>it. 32 # it) xs"
  using assms
proof (induction xs arbitrary: x pre)
  case Nil
  then show ?case by (simp add: split_on_no_sep)
next
  case (Cons y ys)
  have sep: "py ''; '' = [59, 32]" by (simp add: py_def)
  have eq: "pre @ join (py ''; '') (x # y # ys) = (pre @ x) @ 59 # (32 # join (py ''; '') (y # ys))"
    by (simp add: sep)
  have "59 \<notin> set (pre @ x)" using Cons.prems by simp
  then have a: "split_on 59 ((pre @ x) @ 59 # (32 # join (py ''; '') (y # ys)))
      = (pre @ x) # split_on 59 (32 # join (py ''; '') (y # ys))"
    by (rule split_on_append)
  have "split_on 59 ([32] @ join (py ''; '') (y # ys)) = ([32] @ y) # map (\<lambda>it. 32 # it) ys"
    using Cons.prems by (intro Cons.IH) simp_all
  then have b: "split_on 59 (32 # join (py ''; '') (y # ys)) = (32 # y) # map (\<lambda>it. 32 # it) ys"
    by simp
  show ?case unfolding eq a b by simp
qed

lemma re_css_value_no_semicolon: "re_css_value prop s = Some v \<Longrightarrow> 59 \<notin> set v \<and> v \<noteq> []"
proof (induction s)
  case Nil
  then show ?case by simp
next
  case (Cons c cs)
  let ?rest = "drop (length prop) (c # cs)"
  have a: "59 \<notin> set (takeWhile (\<lambda>x. x \<noteq> 59) (dropWhile is_space ?rest))"
    by (auto dest: set_takeWhileD)
  have b: "last (takeWhile is_space ?rest) \<noteq> 59" if "takeWhile is_space ?rest \<noteq> []"
  proof -
    from that have "last (takeWhile is_space ?rest) \<in> set (takeWhile is_space ?rest)" by simp
    then have "is_space (last (takeWhile is_space ?rest))" by (auto dest: set_takeWhileD)
    then show ?thesis by (auto simp: is_space_def)
  qed
  from Cons a b show ?case
    by (auto simp: Let_def split: if_splits)
qed

lemma style_item_align: "59 \<notin> set v \<Longrightarrow> style_item (py ''text-align: '' @ v)"
  by (simp add: style_item_def prop_name_def allowed_properties_def strip_def is_space_def py_def)

lemma style_item_indent: "59 \<notin> set v \<Longrightarrow> style_item (py ''text-indent: '' @ v)"
  by (simp add: style_item_def prop_name_def allowed_properties_def strip_def is_space_def py_def)

lemma style_item_bold: "style_item (py ''font-weight: bold'')"
  by (simp add: style_item_def prop_name_def allowed_properties_def strip_def is_space_def py_def)

lemma in_optional_item:
  "it \<in> set (if c then (case r of Some v \<Rightarrow> [f v] | None \<Rightarrow> []) else []) \<Longrightarrow>
     \<exists>v. r = Some v \<and> it = f v"
  by (cases c; cases r) simp_all

lemma new_style_items:
  assumes "it \<in> set (new_style s)"
  shows "style_item it"
proof -
  let ?A = "if str_in (py ''text-align'') s then
        (case re_css_value (py ''text-align:'') s of
           Some v \<Rightarrow> [py ''text-align: '' @ v] | None \<Rightarrow> [])
      else []"
  let ?B = "if str_in (py ''font-weight'') s \<and> str_in (py ''bold'') s
      then [py ''font-weight: bold''] else []"
  let ?C = "if str_in (py ''text-indent'') s then
        (case re_css_value (py ''text-indent:'') s of
           Some v \<Rightarrow> [py ''text-indent: '' @ v] | None \<Rightarrow> [])
      else []"
  have "new_style s = ?A @ ?B @ ?C" by (simp only: new_style_def)
  with assms have "it \<in> set ?A \<or> it \<in> set ?B \<or> it \<in> set ?C"
    by (simp only: set_append Un_iff)
  then consider (1) "it \<in> set ?A" | (2) "it \<in> set ?B" | (3) "it \<in> set ?C" by blast
  then show ?thesis
  proof cases
    case 1
    from in_optional_item[OF this] obtain v
      where "re_css_value (py ''text-align:'') s = Some v" "it = py ''text-align: '' @ v" by blast
    then show ?thesis
      using re_css_value_no_semicolon[of "py ''text-align:''" s v] by (simp add: style_item_align)
  next
    case 2
    then have "it = py ''font-weight: bold''"
      by (cases "str_in (py ''font-weight'') s \<and> str_in (py ''bold'') s") simp_all
    then show ?thesis by (simp add: style_item_bold)
  next
    case 3
    from in_optional_item[OF this] obtain v
      where "re_css_value (py ''text-indent:'') s = Some v" "it = py ''text-indent: '' @ v" by blast
    then show ?thesis
      using re_css_value_no_semicolon[of "py ''text-indent:''" s v] by (simp add: style_item_indent)
  qed
qed

lemma css_properties_join:
  assumes "\<forall>it \<in> set ns. style_item it" "ns \<noteq> []"
  shows "set (css_properties (join (py ''; '') ns)) \<subseteq> set allowed_properties
    \<and> join (py ''; '') ns \<noteq> []"
proof -
  from assms(2) obtain x xs where eq: "ns = x # xs" by (cases ns) auto
  have nosep: "\<forall>it \<in> set (x # xs). 59 \<notin> set it"
    using assms(1) unfolding eq by (auto simp: style_item_def)
  have "split_on 59 ([] @ join (py ''; '') (x # xs)) = ([] @ x) # map (\<lambda>it. 32 # it) xs"
    using nosep by (intro split_on_join) simp_all
  then have "css_properties (join (py ''; '') ns) = prop_name x # map (\<lambda>it. prop_name (32 # it)) xs"
    by (simp add: css_properties_def eq comp_def)
  moreover have "prop_name x \<in> set allowed_properties"
    using assms(1) unfolding eq by (simp add: style_item_def)
  moreover have "\<forall>it \<in> set xs. prop_name (32 # it) \<in> set allowed_properties"
    using assms(1) unfolding eq by (simp add: style_item_def)
  moreover have "join (py ''; '') ns \<noteq> []"
    using assms(1) unfolding eq by (cases xs) (auto simp: style_item_def)
  ultimately show ?thesis by auto
qed

lemma not_in_optional_item:
  "(\<And>v. x \<noteq> f v) \<Longrightarrow>
     x \<notin> set (if c then (case r of Some v \<Rightarrow> [f v] | None \<Rightarrow> []) else [])"
  by (cases c; cases r) simp_all

lemma bold_in_new_style:
  "py ''font-weight: bold'' \<in> set (new_style s) \<longleftrightarrow> str_in (py ''font-weight'') s \<and> str_in (py ''bold'') s"
proof -
  let ?A = "if str_in (py ''text-align'') s then
        (case re_css_value (py ''text-align:'') s of
           Some v \<Rightarrow> [py ''text-align: '' @ v] | None \<Rightarrow> [])
      else []"
  let ?B = "if str_in (py ''font-weight'') s \<and> str_in (py ''bold'') s
      then [py ''font-weight: bold''] else []"
  let ?C = "if str_in (py ''text-indent'') s then
        (case re_css_value (py ''text-indent:'') s of
           Some v \<Rightarrow> [py ''text-indent: '' @ v] | None \<Rightarrow> [])
      else []"
  have eq: "new_style s = ?A @ ?B @ ?C" by (simp only: new_style_def)
  have "py ''font-weight: bold'' \<noteq> py ''text-align: '' @ v" for v by (simp add: py_def)
  then have a: "py ''font-weight: bold'' \<notin> set ?A" by (rule not_in_optional_item)
  have "py ''font-weight: bold'' \<noteq> py ''text-indent: '' @ v" for v by (simp add: py_def)
  then have c: "py ''font-weight: bold'' \<notin> set ?C" by (rule not_in_optional_item)
  have b: "py ''font-weight: bold'' \<in> set ?B \<longleftrightarrow> str_in (py ''font-weight'') s \<and> str_in (py ''bold'') s"
    by (cases "str_in (py ''font-weight'') s \<and> str_in (py ''bold'') s") simp_all
  show ?thesis
    unfolding eq using a b c by (simp only: set_append Un_iff) blast
qed

text \<open>
  Claim C5. The paragraphs that the Style Normalizer returns are the paragraphs of its
  input, in order, each with the attributes \<^verbatim>\<open>p_style\<close> of its own; the attribute \<^verbatim>\<open>style\<close>
  of such a paragraph is either absent, when no declaration was kept, or not empty, and
  then it is the kept declarations joined by \<^verbatim>\<open>'; '\<close> and the name of each of its
  declarations is \<^verbatim>\<open>text-align\<close>, \<^verbatim>\<open>text-indent\<close> or \<^verbatim>\<open>font-weight\<close>; the declaration
  \<^verbatim>\<open>font-weight: bold\<close> is kept exactly when the style of the input holds both
  \<^verbatim>\<open>font-weight\<close> and \<^verbatim>\<open>bold\<close>; and every heading of the levels one to six comes out with
  the style \<^verbatim>\<open>text-align: center; font-weight: bold;\<close>, whatever style it had.
\<close>

theorem style_normalizer:
  "find_all [py ''p''] (preserve_formatting d)
     = map (\<lambda>e. insert_newlines (map_attrs format_h (map_attrs format_p e)))
         (find_all [py ''p''] (soup_of_fragment d))
   \<and> (\<forall>e \<in> set (find_all [py ''p''] (soup_of_fragment d)).
        node_attrs (insert_newlines (map_attrs format_h (map_attrs format_p e))) = p_style (node_attrs e))
   \<and> (case map_of (p_style a) (py ''style'') of
        None \<Rightarrow> new_style (get_attr a (py ''style'')) = []
      | Some v \<Rightarrow> v \<noteq> [] \<and> v = join (py ''; '') (new_style (get_attr a (py ''style'')))
          \<and> set (css_properties v) \<subseteq> set allowed_properties)
   \<and> (py ''font-weight: bold'' \<in> set (new_style s) \<longleftrightarrow>
        str_in (py ''font-weight'') s \<and> str_in (py ''bold'') s)
   \<and> (\<forall>h \<in> set (find_all heading_tags (preserve_formatting d)).
        attr_get h (py ''style'') = Some (py ''text-align: center; font-weight: bold;''))"
proof (intro conjI ballI)
  show "find_all [py ''p''] (preserve_formatting d)
     = map (\<lambda>e. insert_newlines (map_attrs format_h (map_attrs format_p e)))
         (find_all [py ''p''] (soup_of_fragment d))"
    by (rule find_all_preserve_formatting)
next
  fix e assume "e \<in> set (find_all [py ''p''] (soup_of_fragment d))"
  from find_all_element[OF this] obtain a cs where "e = Element (py ''p'') a cs" by auto
  then show "node_attrs (insert_newlines (map_attrs format_h (map_attrs format_p e))) = p_style (node_attrs e)"
    using p_not_heading by (simp add: node_attrs_def format_h_def format_p_def)
next
  let ?ns = "new_style (get_attr a (py ''style''))"
  show "case map_of (p_style a) (py ''style'') of
        None \<Rightarrow> ?ns = []
      | Some v \<Rightarrow> v \<noteq> [] \<and> v = join (py ''; '') ?ns \<and> set (css_properties v) \<subseteq> set allowed_properties"
  proof (cases "?ns = []")
    case True
    then show ?thesis by (simp add: p_style_def map_of_delete_same)
  next
    case False
    have "\<forall>it \<in> set ?ns. style_item it" by (simp add: new_style_items)
    from css_properties_join[OF this False] False show ?thesis
      by (simp add: p_style_def map_of_update_same)
  qed
next
  show "py ''font-weight: bold'' \<in> set (new_style s) \<longleftrightarrow>
        str_in (py ''font-weight'') s \<and> str_in (py ''bold'') s"
    by (rule bold_in_new_style)
next
  fix h assume "h \<in> set (find_all heading_tags (preserve_formatting d))"
  then obtain e where e: "e \<in> set (find_all heading_tags (soup_of_fragment d))"
    and h: "h = insert_newlines (map_attrs format_h (map_attrs format_p e))"
    unfolding find_all_preserve_formatting by auto
  from find_all_element[OF e] obtain t a cs where "e = Element t a cs" "t \<in> set heading_tags" by auto
  then show "attr_get h (py ''style'') = Some (py ''text-align: center; font-weight: bold;'')"
    unfolding h by (simp add: attr_get_def format_h_def map_of_update_same)
qed

section \<open>Properties of the image round trip\<close>

text \<open>A string is in another one when it stands between two pieces of it.\<close>

lemma str_in_iff: "str_in p s \<longleftrightarrow> (\<exists>u v. s = u @ p @ v)"
proof
  show "str_in p s \<Longrightarrow> \<exists>u v. s = u @ p @ v"
  proof (induction s)
    case Nil
    then show ?case by simp
  next
    case (Cons c cs)
    then consider "prefix p (c # cs)" | "str_in p cs" by auto
    then show ?case
    proof cases
      case 1
      then obtain v where "c # cs = p @ v" by (auto simp: prefix_def)
      then have "c # cs = [] @ p @ v" by simp
      then show ?thesis by blast
    next
      case 2
      with Cons.IH obtain u v where "cs = u @ p @ v" by blast
      then have "c # cs = (c # u) @ p @ v" by simp
      then show ?thesis by blast
    qed
  qed
next
  assume "\<exists>u v. s = u @ p @ v"
  then show "str_in p s" by (auto simp: str_in_append)
qed

lemma str_in_context: "str_in p s \<Longrightarrow> str_in p (a @ s @ b)"
proof -
  assume "str_in p s"
  then obtain u v where "s = u @ p @ v" unfolding str_in_iff by blast
  then have "a @ s @ b = (a @ u) @ p @ (v @ b)" by simp
  then show ?thesis unfolding str_in_iff by blast
qed

lemma str_in_trans: "str_in p q \<Longrightarrow> str_in q s \<Longrightarrow> str_in p s"
proof -
  assume "str_in p q" "str_in q s"
  then obtain u v where s: "s = u @ q @ v" unfolding str_in_iff by blast
  from \<open>str_in p q\<close> have "str_in p (u @ q @ v)" by (rule str_in_context)
  then show ?thesis unfolding s .
qed

lemma str_in_concat: "x \<in> set xs \<Longrightarrow> str_in x (concat xs)"
proof -
  assume "x \<in> set xs"
  then obtain ys zs where "xs = ys @ x # zs" by (auto simp: in_set_conv_decomp)
  then have "concat xs = concat ys @ x @ concat zs" by simp
  then show ?thesis unfolding str_in_iff by blast
qed

text \<open>
  \<^verbatim>\<open>replace\<close> puts the new text wherever the old one occurs, changes nothing when it does
  not occur, and keeps a piece of the text that no occurrence of the old text overlaps.
\<close>

lemma replace_Nil: "old \<noteq> [] \<Longrightarrow> replace old new [] = []"
  by (simp add: replace.simps)

lemma replace_Cons:
  "old \<noteq> [] \<Longrightarrow> replace old new (c # cs) =
     (if prefix old (c # cs) then new @ replace old new (drop (length old) (c # cs))
      else c # replace old new cs)"
  by (subst replace.simps) simp

lemma replace_intro:
  assumes "old \<noteq> []"
  shows "str_in old s \<Longrightarrow> str_in new (replace old new s)"
proof (induction s)
  case Nil
  with assms show ?case by simp
next
  case (Cons c cs)
  show ?case
  proof (cases "prefix old (c # cs)")
    case True
    have "str_in new ([] @ new @ replace old new (drop (length old) (c # cs)))"
      by (rule str_in_append)
    with True assms show ?thesis by (simp add: replace_Cons)
  next
    case False
    with Cons.prems have "str_in old cs" by simp
    then have "str_in new (replace old new cs)" by (rule Cons.IH)
    then have "str_in new ([c] @ replace old new cs @ [])" by (rule str_in_context)
    with False assms show ?thesis by (simp add: replace_Cons)
  qed
qed

lemma replace_id:
  assumes "old \<noteq> []"
  shows "\<not> str_in old s \<Longrightarrow> replace old new s = s"
proof (induction s)
  case Nil
  with assms show ?case by (simp add: replace_Nil)
next
  case (Cons c cs)
  then show ?case using assms by (simp add: replace_Cons)
qed

lemma replace_skip:
  assumes "old \<noteq> []"
  shows "(\<And>t1 t2. T = t1 @ t2 \<Longrightarrow> t2 \<noteq> [] \<Longrightarrow> \<not> prefix old (t2 @ v)) \<Longrightarrow>
    replace old new (T @ v) = T @ replace old new v"
proof (induction T)
  case Nil
  show ?case by simp
next
  case (Cons c T)
  have "\<not> prefix old ((c # T) @ v)"
    using Cons.prems[of "[]" "c # T"] by simp
  moreover have "replace old new (T @ v) = T @ replace old new v"
  proof (rule Cons.IH)
    fix t1 t2 assume "T = t1 @ t2" "t2 \<noteq> []"
    then show "\<not> prefix old (t2 @ v)" using Cons.prems[of "c # t1" t2] by simp
  qed
  ultimately show ?case using assms by (simp add: replace_Cons)
qed

lemma replace_keeps:
  assumes "old \<noteq> []"
    and a: "\<And>u1 u2. u = u1 @ u2 \<Longrightarrow> prefix old (u2 @ T @ v) \<Longrightarrow> length old \<le> length u2"
    and b: "\<And>t1 t2. T = t1 @ t2 \<Longrightarrow> t2 \<noteq> [] \<Longrightarrow> \<not> prefix old (t2 @ v)"
  shows "\<exists>u'. replace old new (u @ T @ v) = u' @ T @ replace old new v"
  using a
proof (induction "length u" arbitrary: u rule: less_induct)
  case less
  show ?case
  proof (cases u)
    case Nil
    from replace_skip[OF assms(1), of T v new] b
    have "replace old new (T @ v) = T @ replace old new v" by blast
    then have "replace old new (u @ T @ v) = [] @ T @ replace old new v" by (simp add: Nil)
    then show ?thesis by blast
  next
    case (Cons c u')
    show ?thesis
    proof (cases "prefix old (u @ T @ v)")
      case True
      from less.prems[of "[]" u] True have len: "length old \<le> length u" by simp
      let ?w = "drop (length old) u"
      have lt: "length ?w < length u" using assms(1) Cons by simp
      have "\<exists>u'. replace old new (?w @ T @ v) = u' @ T @ replace old new v"
      proof (rule less.hyps[OF lt])
        fix u1 u2 assume "?w = u1 @ u2" "prefix old (u2 @ T @ v)"
        moreover have "u = take (length old) u @ ?w" by simp
        ultimately have "u = (take (length old) u @ u1) @ u2" by simp
        from less.prems[OF this \<open>prefix old (u2 @ T @ v)\<close>] show "length old \<le> length u2" .
      qed
      then obtain u'' where "replace old new (?w @ T @ v) = u'' @ T @ replace old new v" by blast
      moreover have "drop (length old) (u @ T @ v) = ?w @ T @ v" using len by simp
      ultimately have "replace old new (u @ T @ v) = (new @ u'') @ T @ replace old new v"
        using True assms(1) Cons by (simp add: replace_Cons)
      then show ?thesis by blast
    next
      case False
      have lt: "length u' < length u" using Cons by simp
      have "\<exists>w. replace old new (u' @ T @ v) = w @ T @ replace old new v"
      proof (rule less.hyps[OF lt])
        fix u1 u2 assume "u' = u1 @ u2" "prefix old (u2 @ T @ v)"
        then have "u = (c # u1) @ u2" using Cons by simp
        from less.prems[OF this \<open>prefix old (u2 @ T @ v)\<close>] show "length old \<le> length u2" .
      qed
      then obtain w where "replace old new (u' @ T @ v) = w @ T @ replace old new v" by blast
      then have "replace old new (u @ T @ v) = (c # w) @ T @ replace old new v"
        using False assms(1) Cons by (simp add: replace_Cons)
      then show ?thesis by blast
    qed
  qed
qed


text \<open>
  Two texts \<^verbatim>\<open>src="m"\<close> and \<^verbatim>\<open>src="b"\<close> with different values that hold no double quote and no
  equals sign do not overlap, so replacing the one keeps every occurrence of the other.
\<close>

lemma src_attr_eq: "src_attr v = 115 # 114 # 99 # 61 # 34 # v @ [34]"
  by (simp add: src_attr_def py_def)

lemma quote_closes:
  "prefix (x @ [34]) (y @ 34 # v) \<Longrightarrow> (34::nat) \<notin> set x \<Longrightarrow> 34 \<notin> set y \<Longrightarrow> x = y"
proof (induction x arbitrary: y)
  case Nil
  then show ?case by (cases y) auto
next
  case (Cons a x)
  then show ?case by (cases y) auto
qed

lemma quote_before_src:
  "prefix (x @ [34]) (y @ 115 # 114 # 99 # 61 # z) \<Longrightarrow> (34::nat) \<notin> set x \<Longrightarrow> 61 \<notin> set x \<Longrightarrow>
     length y \<le> length x \<Longrightarrow> False"
proof (induction y arbitrary: x)
  case Nil
  then show ?case
    by (cases x; cases "tl x"; cases "tl (tl x)"; cases "tl (tl (tl x))") auto
next
  case (Cons c y)
  then show ?case by (cases x) auto
qed

lemma src_before_quote:
  "prefix (115 # 114 # 99 # 61 # z) (y @ 34 # v) \<Longrightarrow> (61::nat) \<notin> set y \<Longrightarrow> False"
  by (cases y; cases "tl y"; cases "tl (tl y)"; cases "tl (tl (tl y))") auto

lemma no_overlap_left:
  assumes p: "prefix (src_attr b') (u2 @ src_attr m @ v)"
    and b': "34 \<notin> set b'" "61 \<notin> set b'" and m: "34 \<notin> set m" and ne: "m \<noteq> b'"
  shows "length (src_attr b') \<le> length u2"
proof (rule ccontr)
  assume "\<not> length (src_attr b') \<le> length u2"
  then have len: "length u2 < 6 + length b'" by (simp add: src_attr_eq)
  show False
  proof (cases u2)
    case Nil
    with p have "prefix (b' @ [34]) (m @ 34 # v)" by (simp add: src_attr_eq)
    from quote_closes[OF this b'(1) m] ne show False by simp
  next
    case u2: (Cons c1 u3)
    show False
    proof (cases u3)
      case Nil
      with p u2 show False by (simp add: src_attr_eq)
    next
      case u3: (Cons c2 u4)
      show False
      proof (cases u4)
        case Nil
        with p u2 u3 show False by (simp add: src_attr_eq)
      next
        case u4: (Cons c3 u5)
        show False
        proof (cases u5)
          case Nil
          with p u2 u3 u4 show False by (simp add: src_attr_eq)
        next
          case u5: (Cons c4 u6)
          show False
          proof (cases u6)
            case Nil
            with p u2 u3 u4 u5 show False by (simp add: src_attr_eq)
          next
            case u6: (Cons c5 u7)
            from p have q: "prefix (b' @ [34]) (u7 @ 115 # 114 # 99 # 61 # (34 # m @ [34] @ v))"
              by (simp add: src_attr_eq u2 u3 u4 u5 u6)
            from len have "length u7 \<le> length b'" by (simp add: u2 u3 u4 u5 u6)
            with q b' show False by (rule quote_before_src)
          qed
        qed
      qed
    qed
  qed
qed

lemma append_snoc_split:
  "xs @ [a] = ys @ zs \<Longrightarrow> zs \<noteq> [] \<Longrightarrow> \<exists>w. zs = w @ [a] \<and> xs = ys @ w"
  by (cases zs rule: rev_cases) auto

lemma no_overlap_inside:
  assumes t: "src_attr m = t1 @ t2" "t2 \<noteq> []"
    and b': "34 \<notin> set b'" and m: "34 \<notin> set m" "61 \<notin> set m" and ne: "m \<noteq> b'"
  shows "\<not> prefix (src_attr b') (t2 @ v)"
proof
  assume p: "prefix (src_attr b') (t2 @ v)"
  show False
  proof (cases t1)
    case Nil
    with t have "t2 = src_attr m" by simp
    with p have "prefix (b' @ [34]) (m @ 34 # v)" by (simp add: src_attr_eq)
    from quote_closes[OF this b' m(1)] ne show False by simp
  next
    case t1: (Cons c1 r1)
    show False
    proof (cases r1)
      case Nil
      with t t1 p show False by (auto simp: src_attr_eq)
    next
      case r1: (Cons c2 r2)
      show False
      proof (cases r2)
        case Nil
        with t t1 r1 p show False by (auto simp: src_attr_eq)
      next
        case r2: (Cons c3 r3)
        show False
        proof (cases r3)
          case Nil
          with t t1 r1 r2 p show False by (auto simp: src_attr_eq)
        next
          case r3: (Cons c4 r4)
          show False
          proof (cases r4)
            case Nil
            with t t1 r1 r2 r3 p show False by (auto simp: src_attr_eq)
          next
            case r4: (Cons c5 r5)
            from t(1) have "m @ [34] = r5 @ t2" by (simp add: src_attr_eq t1 r1 r2 r3 r4)
            from append_snoc_split[OF this t(2)] obtain w where w: "t2 = w @ [34]" "m = r5 @ w" by blast
            from p have "prefix (115 # 114 # 99 # 61 # (34 # b' @ [34])) (w @ 34 # v)"
              by (simp add: src_attr_eq w)
            moreover have "61 \<notin> set w" using m(2) w(2) by simp
            ultimately show False by (rule src_before_quote)
          qed
        qed
      qed
    qed
  qed
qed

lemma src_attr_survives:
  assumes "34 \<notin> set m" "61 \<notin> set m" "34 \<notin> set b'" "61 \<notin> set b'" "m \<noteq> b'"
    and s: "str_in (src_attr m) s"
  shows "str_in (src_attr m) (replace (src_attr b') new s)"
proof -
  from s obtain u v where s: "s = u @ src_attr m @ v" unfolding str_in_iff by blast
  have ne: "src_attr b' \<noteq> []" by (simp add: src_attr_eq)
  have "\<exists>u'. replace (src_attr b') new (u @ src_attr m @ v) = u' @ src_attr m @ replace (src_attr b') new v"
  proof (rule replace_keeps[OF ne])
    fix u1 u2 assume "u = u1 @ u2" "prefix (src_attr b') (u2 @ src_attr m @ v)"
    from no_overlap_left[OF this(2) assms(3,4,1,5)] show "length (src_attr b') \<le> length u2" .
  next
    fix t1 t2 assume "src_attr m = t1 @ t2" "t2 \<noteq> []"
    from no_overlap_inside[OF this assms(3,1,2,5)] show "\<not> prefix (src_attr b') (t2 @ v)" .
  qed
  then show ?thesis unfolding s by (auto simp: str_in_append)
qed

text \<open>
  The serialised soup holds the serialisation of every node below it, and the tag of an
  image holds its source, written as it is when the value needs no escaping.
\<close>

lemma str_in_refl: "str_in p p"
  using str_in_append[of p "[]" "[]"] by simp

lemma str_in_child:
  assumes "c \<in> set cs" "str_in p (str_node c)"
  shows "str_in p (concat (map str_node cs))"
proof -
  from assms(1) have "str_node c \<in> set (map str_node cs)" by simp
  then have "str_in (str_node c) (concat (map str_node cs))" by (rule str_in_concat)
  with assms(2) show ?thesis by (rule str_in_trans)
qed

lemma str_in_element:
  assumes "str_in p (concat (map str_node cs))" "cs \<noteq> []"
  shows "str_in p (str_node (Element t a cs))"
proof -
  from assms(1) have "str_in p (([60] @ t @ str_attrs a @ [62]) @ concat (map str_node cs) @ (py ''</'' @ t @ [62]))"
    by (rule str_in_context)
  with assms(2) show ?thesis by simp
qed

lemma str_in_descendant:
  "e \<in> set (descendants n) \<Longrightarrow> str_in (str_node e) (str_node n)"
proof (induction n)
  case (Element t a cs)
  from Element.prems obtain c where c: "c \<in> set cs" "e = c \<or> e \<in> set (descendants c)" by auto
  from c(2) have "str_in (str_node e) (str_node c)"
    using Element.IH[OF c(1)] str_in_refl by auto
  with c(1) have "str_in (str_node e) (concat (map str_node cs))" by (rule str_in_child)
  moreover from c(1) have "cs \<noteq> []" by auto
  ultimately show ?case by (rule str_in_element)
qed simp_all

lemma str_in_soup:
  assumes "e \<in> set (descendants soup)"
  shows "str_in (str_node e) (str_soup soup)"
proof (cases soup)
  case (Element t a cs)
  from assms obtain c where c: "c \<in> set cs" "e = c \<or> e \<in> set (descendants c)"
    unfolding Element by auto
  from c(2) have "str_in (str_node e) (str_node c)"
    using str_in_descendant str_in_refl by auto
  with c(1) have "str_in (str_node e) (concat (map str_node cs))" by (rule str_in_child)
  then show ?thesis by (simp add: str_soup_def Element)
qed (use assms in simp_all)

lemma escape_plain: "set b \<inter> {38, 60, 62} = {} \<Longrightarrow> escape b = b"
  by (induction b) auto

lemma str_in_attrs:
  assumes "(py ''src'', b) \<in> set a" "plain_name b"
  shows "str_in (src_attr b) (str_attrs a)"
proof -
  let ?f = "\<lambda>(k, v). [32] @ k @ [61] @ quoted_attribute_value (escape v)"
  from assms(2) have "escape b = b" "34 \<notin> set b"
    by (auto simp: plain_name_def intro: escape_plain)
  then have "?f (py ''src'', b) = [32] @ src_attr b @ []"
    by (simp add: quoted_attribute_value_def src_attr_def py_def)
  moreover have "?f (py ''src'', b) \<in> set (map ?f (sort_key fst a))"
    using assms(1) by (simp add: image_iff) force
  then have "str_in (?f (py ''src'', b)) (str_attrs a)"
    unfolding str_attrs_def by (rule str_in_concat)
  moreover have "str_in (src_attr b) ([32] @ src_attr b @ [])" by (rule str_in_append)
  ultimately show ?thesis by (metis str_in_trans)
qed

lemma str_in_tag:
  assumes "str_in p (str_attrs a)"
  shows "str_in p (str_node (Element t a cs))"
proof (cases "cs = [] \<and> t \<in> set void_tags")
  case True
  from assms have "str_in p (([60] @ t) @ str_attrs a @ py ''/>'')" by (rule str_in_context)
  with True show ?thesis by simp
next
  case False
  from assms have "str_in p (([60] @ t) @ str_attrs a @ ([62] @ concat (map str_node cs) @ py ''</'' @ t @ [62]))"
    by (rule str_in_context)
  with False show ?thesis by auto
qed

lemma update_mem: "(k, v) \<in> set (AList.update k v a)"
  by (induction a) auto

lemma process_img_src:
  assumes "map_of a (py ''src'') = Some s" "startswith s (py ''./assets/'')"
  shows "(py ''src'', basename s) \<in> set (process_img a)"
  using assms by (simp add: process_img_def get_attr_def Let_def update_mem)

lemma img_in_content:
  assumes e: "e \<in> set (find_all [py ''img''] soup0)"
    and s: "attr_get e (py ''src'') = Some s" "startswith s (py ''./assets/'')"
    and p: "plain_name (basename s)"
  shows "str_in (src_attr (basename s)) (str_soup (map_attrs format_img soup0))"
proof -
  from find_all_img_cases[OF e] obtain a cs where el: "e = Element (py ''img'') a cs" by blast
  from e have "e \<in> set (descendants soup0)" by (simp add: find_all_def)
  then have "map_attrs format_img e \<in> set (descendants (map_attrs format_img soup0))"
    by (simp add: descendants_map_attrs)
  then have "str_in (str_node (map_attrs format_img e)) (str_soup (map_attrs format_img soup0))"
    by (rule str_in_soup)
  moreover have "str_in (src_attr (basename s)) (str_node (map_attrs format_img e))"
  proof -
    from s have "(py ''src'', basename s) \<in> set (process_img a)"
      unfolding el by (intro process_img_src) (simp_all add: attr_get_def)
    from str_in_attrs[OF this p] have "str_in (src_attr (basename s)) (str_attrs (process_img a))" .
    then have "str_in (src_attr (basename s))
        (str_node (Element (py ''img'') (process_img a) (map (map_attrs format_img) cs)))"
      by (rule str_in_tag)
    then show ?thesis by (simp add: el format_img_def)
  qed
  ultimately show ?thesis by (metis str_in_trans)
qed

text \<open>
  The loop over the image files: the resources it adds and the chapter body it leaves,
  and what the replacements keep of the references in the body.
\<close>

lemma embed_image_step:
  assumes "\<not> path_isdir fs (path_join dir_path p)"
  shows "embed_image fs dir_path k p (self, ch) =
     (if path_exists fs (path_join dir_path p)
      then Inr (add_item (Item (image_item fs dir_path k p)) self, ch\<lparr>content := relink (content ch) p\<rparr>)
      else Inr (self, ch))"
  using assms
  by (auto simp: embed_image_def image_item_def relink_def src_attr_def Let_def path_exists_def
      path_isdir_def read_bytes_def split: option.splits entry.splits)

lemma embed_images_result:
  assumes "\<forall>p \<in> set imgs. \<not> path_isdir fs (path_join dir_path p)"
  shows "embed_images fs dir_path k imgs (self, ch) =
     Inr (self\<lparr>book := (book self)\<lparr>items := items (book self) @
              map (\<lambda>p. Item (image_item fs dir_path k p))
                (filter (\<lambda>p. path_exists fs (path_join dir_path p)) imgs)\<rparr>\<rparr>,
          ch\<lparr>content := foldl relink (content ch)
                (filter (\<lambda>p. path_exists fs (path_join dir_path p)) imgs)\<rparr>)"
  using assms
proof (induction imgs arbitrary: self ch)
  case Nil
  show ?case by simp
next
  case (Cons p imgs)
  from Cons.prems have d: "\<not> path_isdir fs (path_join dir_path p)"
    and r: "\<forall>p \<in> set imgs. \<not> path_isdir fs (path_join dir_path p)" by simp_all
  show ?case
    by (simp add: embed_image_step[OF d] Cons.IH[OF r] add_item_def)
qed

lemma plain_name_chars: "plain_name b \<Longrightarrow> 34 \<notin> set b \<and> 61 \<notin> set b"
  by (auto simp: plain_name_def)

lemma basename_no_slash: "47 \<notin> set (basename p)"
  by (auto simp: basename_def dest: set_takeWhileD)

lemma images_not_basename: "py ''images/'' @ b \<noteq> basename p"
proof
  assume "py ''images/'' @ b = basename p"
  then have "set (basename p) = set (py ''images/'' @ b)" by simp
  then have "47 \<in> set (basename p)" by (simp add: py_def)
  with basename_no_slash show False by blast
qed

lemma plain_images: "plain_name b \<Longrightarrow> 34 \<notin> set (py ''images/'' @ b) \<and> 61 \<notin> set (py ''images/'' @ b)"
  by (auto simp: plain_name_def py_def)

lemma relink_keeps:
  assumes "34 \<notin> set m \<and> 61 \<notin> set m" "plain_name (basename p)" "m \<noteq> basename p"
    and "str_in (src_attr m) c"
  shows "str_in (src_attr m) (relink c p)"
  unfolding relink_def using assms plain_name_chars[OF assms(2)]
  by (intro src_attr_survives) simp_all

lemma relink_same:
  assumes "str_in (src_attr (basename p)) c \<or> str_in (src_attr (py ''images/'' @ basename p)) c"
  shows "str_in (src_attr (py ''images/'' @ basename p)) (relink c p)"
proof (cases "str_in (src_attr (basename p)) c")
  case True
  have "src_attr (basename p) \<noteq> []" by (simp add: src_attr_eq)
  from replace_intro[OF this True] show ?thesis by (simp add: relink_def)
next
  case False
  have "src_attr (basename p) \<noteq> []" by (simp add: src_attr_eq)
  from replace_id[OF this False] have "relink c p = c" by (simp add: relink_def)
  with assms False show ?thesis by simp
qed

lemma foldl_keeps_linked:
  assumes "plain_name b" "\<forall>p \<in> set ps. plain_name (basename p)"
  shows "str_in (src_attr (py ''images/'' @ b)) c \<Longrightarrow>
    str_in (src_attr (py ''images/'' @ b)) (foldl relink c ps)"
  using assms(2)
proof (induction ps arbitrary: c)
  case Nil
  then show ?case by simp
next
  case (Cons p ps)
  from Cons.prems have "str_in (src_attr (py ''images/'' @ b)) (relink c p)"
    using plain_images[OF assms(1)] images_not_basename[of b p]
    by (intro relink_keeps) simp_all
  then show ?case using Cons.IH Cons.prems by simp
qed

lemma foldl_keeps_bare:
  assumes "plain_name b" "\<forall>p \<in> set ps. plain_name (basename p) \<and> basename p \<noteq> b"
  shows "str_in (src_attr b) c \<Longrightarrow> str_in (src_attr b) (foldl relink c ps)"
  using assms(2)
proof (induction ps arbitrary: c)
  case Nil
  then show ?case by simp
next
  case (Cons p ps)
  from Cons.prems have "str_in (src_attr b) (relink c p)"
    using plain_name_chars[OF assms(1)]
    by (intro relink_keeps) auto
  then show ?case using Cons.IH Cons.prems by simp
qed

lemma foldl_links:
  assumes "plain_name b" "\<forall>p \<in> set ps. plain_name (basename p)"
    and "\<exists>p \<in> set ps. basename p = b"
  shows "str_in (src_attr b) c \<or> str_in (src_attr (py ''images/'' @ b)) c \<Longrightarrow>
    str_in (src_attr (py ''images/'' @ b)) (foldl relink c ps)"
  using assms(2,3)
proof (induction ps arbitrary: c)
  case Nil
  then show ?case by simp
next
  case (Cons p ps)
  from Cons.prems have pl: "\<forall>p \<in> set ps. plain_name (basename p)" "plain_name (basename p)" by simp_all
  show ?case
  proof (cases "basename p = b")
    case True
    with Cons.prems(1) have "str_in (src_attr (py ''images/'' @ b)) (relink c p)"
      using relink_same[of p c] by simp
    from foldl_keeps_linked[OF assms(1) pl(1) this] show ?thesis by simp
  next
    case False
    with Cons.prems have ex: "\<exists>p \<in> set ps. basename p = b" by simp
    have "str_in (src_attr b) (relink c p) \<or> str_in (src_attr (py ''images/'' @ b)) (relink c p)"
    proof -
      consider "str_in (src_attr b) c" | "str_in (src_attr (py ''images/'' @ b)) c"
        using Cons.prems(1) by blast
      then show ?thesis
      proof cases
        case 1
        then have "str_in (src_attr b) (relink c p)"
          using plain_name_chars[OF assms(1)] pl(2) False by (intro relink_keeps) auto
        then show ?thesis by simp
      next
        case 2
        then have "str_in (src_attr (py ''images/'' @ b)) (relink c p)"
          using plain_images[OF assms(1)] images_not_basename[of b p] pl(2)
          by (intro relink_keeps) simp_all
        then show ?thesis by simp
      qed
    qed
    from Cons.IH[OF this pl(1) ex] show ?thesis by simp
  qed
qed

lemma img_source_listed:
  assumes "e \<in> set (find_all [py ''img''] soup0)" "attr_get e (py ''src'') = Some s"
    "startswith s (py ''./assets/'')"
  shows "s \<in> set (img_sources soup0)"
  using assms by (force simp: img_sources_def)

text \<open>
  Claim C6, for the images of the cleaned content. Let the entry document of an article
  be readable and hold a content container, and let no image path of the cleaned content
  name a directory. Then \<^verbatim>\<open>process_html_file\<close> returns a chapter, and the book gains exactly
  one resource for each image path of the cleaned content that exists under the article
  directory, provided the article has an \<^verbatim>\<open>assets\<close> directory, and none otherwise: the
  resource has the file name \<^verbatim>\<open>images/\<close> with the base name, the media type of the extension
  and the bytes of the file. When moreover the base names hold no double quote,
  ampersand, angle bracket or equals sign, the chapter body holds, for every image whose
  source starts with \<^verbatim>\<open>./assets/\<close>, the text \<^verbatim>\<open>src="images/\<close> base name \<^verbatim>\<open>"\<close> when a resource with
  that base name was added, and the text \<^verbatim>\<open>src="\<close> base name \<^verbatim>\<open>"\<close> when none was.
\<close>

theorem image_round_trip:
  assumes r: "read_text fs (path_join dir_path (py ''index.html'')) = Inr html_content"
    and c: "processed_content (clean_soup (lxml html_content)) = Some soup0"
    and f: "\<forall>p \<in> set (img_sources soup0). \<not> path_isdir fs (path_join dir_path p)"
  shows "\<exists>self' ch t. process_html_file lxml fs (dir_name, dir_path) k self = Inr (self', Some (ch, t))
     \<and> items (book self') = items (book self) @
          map (\<lambda>p. Item (image_item fs dir_path k p)) (embedded fs dir_path soup0)
     \<and> ((\<forall>p \<in> set (img_sources soup0). plain_name (basename p)) \<longrightarrow>
        (\<forall>e \<in> set (find_all [py ''img''] soup0). \<forall>s.
           attr_get e (py ''src'') = Some s \<and> startswith s (py ''./assets/'') \<longrightarrow>
           str_in (src_attr (if \<exists>p \<in> set (embedded fs dir_path soup0). basename p = basename s
                             then py ''images/'' @ basename s else basename s)) (content ch)))"
proof -
  let ?L = "img_sources soup0"
  let ?C = "str_soup (map_attrs format_img soup0)"
  let ?t0 = "extract_title (clean_soup (lxml html_content))"
  let ?title = "if ?t0 = [] then dir_name else ?t0"
  let ?pre = "[10] @ py ''        <h1>'' @ ?title @ py ''</h1>'' @ [10] @
                py ''        <p class='' @ [34] @ py ''center'' @ [34] @ py ''><strong>'' @
                date_str_of dir_name @ py ''</strong></p>'' @ [10] @ py ''        ''"
  let ?post = "[10] @ py ''        ''"
  let ?c0 = "?pre @ ?C @ ?post"
  let ?ch0 = "\<lparr>html_title = ?title, file_name = py ''chapter_'' @ str_nat k @ py ''.xhtml'',
      lang = py ''zh-CN'', content = ?c0\<rparr>"
  let ?E = "embedded fs dir_path soup0"
  from r have ex: "path_exists fs (path_join dir_path (py ''index.html''))"
    by (auto simp: read_text_def path_exists_def split: option.splits)
  have cl: "clean_html_content lxml [] html_content = (?t0, ?C, ?L)"
    by (simp add: clean_html_content_def c)
  have res: "process_html_file lxml fs (dir_name, dir_path) k self =
      Inr (self\<lparr>image_files_to_process := ?L,
                 book := (book self)\<lparr>items := items (book self) @ map (\<lambda>p. Item (image_item fs dir_path k p)) ?E\<rparr>\<rparr>,
           Some (?ch0\<lparr>content := foldl relink ?c0 ?E\<rparr>, ?title))"
  proof (cases "path_exists fs (path_join dir_path (py ''assets''))")
    case True
    then show ?thesis
      by (simp add: process_html_file_def ex r cl Let_def embed_images_result[OF f] embedded_def)
  next
    case False
    then show ?thesis
      by (simp add: process_html_file_def ex r cl Let_def embedded_def)
  qed
  have body: "str_in (src_attr (if \<exists>p \<in> set ?E. basename p = basename s
                             then py ''images/'' @ basename s else basename s)) (foldl relink ?c0 ?E)"
    if pl: "\<forall>p \<in> set ?L. plain_name (basename p)"
      and e: "e \<in> set (find_all [py ''img''] soup0)"
      and s: "attr_get e (py ''src'') = Some s" "startswith s (py ''./assets/'')" for e s
  proof -
    from img_source_listed[OF e s] pl have pb: "plain_name (basename s)" by blast
    from img_in_content[OF e s pb] have "str_in (src_attr (basename s)) ?c0"
      by (rule str_in_context)
    moreover have plE: "\<forall>p \<in> set ?E. plain_name (basename p)"
      using pl by (simp add: embedded_def)
    show ?thesis
    proof (cases "\<exists>p \<in> set ?E. basename p = basename s")
      case True
      from foldl_links[OF pb plE True] \<open>str_in (src_attr (basename s)) ?c0\<close> True
      show ?thesis by simp
    next
      case False
      with plE have "\<forall>p \<in> set ?E. plain_name (basename p) \<and> basename p \<noteq> basename s" by blast
      from foldl_keeps_bare[OF pb this \<open>str_in (src_attr (basename s)) ?c0\<close>] False
      show ?thesis by simp
    qed
  qed
  let ?self' = "self\<lparr>image_files_to_process := ?L,
      book := (book self)\<lparr>items := items (book self) @ map (\<lambda>p. Item (image_item fs dir_path k p)) ?E\<rparr>\<rparr>"
  let ?ch = "?ch0\<lparr>content := foldl relink ?c0 ?E\<rparr>"
  have 1: "items (book ?self') = items (book self) @ map (\<lambda>p. Item (image_item fs dir_path k p)) ?E"
    by simp
  have 2: "(\<forall>p \<in> set ?L. plain_name (basename p)) \<longrightarrow>
        (\<forall>e \<in> set (find_all [py ''img''] soup0). \<forall>s.
           attr_get e (py ''src'') = Some s \<and> startswith s (py ''./assets/'') \<longrightarrow>
           str_in (src_attr (if \<exists>p \<in> set ?E. basename p = basename s
                             then py ''images/'' @ basename s else basename s)) (content ?ch))"
    using body by simp
  from res 1 2 show ?thesis by blast
qed

section \<open>The properties at concrete inputs\<close>

lemma dec_digits_numeral:
  "dec_digits (numeral k) n = dec_digits (pred_numeral k) (n div 10) @ [48 + n mod 10]"
  by (simp only: numeral_eq_Suc[of k] dec_digits.simps)

lemma dec_digits_1: "dec_digits 1 n = [48 + n mod 10]"
  using dec_digits.simps(2)[of 0 n] by simp

lemmas date_eval = extract_date_from_dirname_def py_def matches_shape_def date_shape_def
  is_digit_def digit_value_def nd_starts_def is_hyphen_def strptime_def in_range_def make_date_def
  days_in_month_def is_leap_def int_of_digits_def ymd_text_def dec_digits_numeral dec_digits_1

text \<open>
  Claim C2 as it is stated fails at the name \<^verbatim>\<open>2024-13-01_2024-01-02\<close>: the name contains
  the text of the calendar date 2 January 2024, and the result is the fallback date,
  because the leftmost match is \<^verbatim>\<open>2024-13-01\<close>.
\<close>

theorem extract_date_counterexample:
  "py ''2024-13-01_2024-01-02'' = py ''2024-13-01_'' @ ymd_text 2024 1 2 @ []
   \<and> matches_shape date_shape (ymd_text 2024 1 2) \<and> valid_date 2024 1 2
   \<and> extract_date_from_dirname (py ''2024-13-01_2024-01-02'') = Inr (2000, 1, 1)"
  by (simp add: valid_date_def date_eval)

text \<open>The amended claim C2 at three names: a date, 30 February, and no date at all.\<close>

theorem extract_date_leftmost_witness:
  "extract_date_from_dirname (py ''x2024-03-01-a'') = Inr (2024, 3, 1)
   \<and> extract_date_from_dirname (py ''2024-02-30'') = Inr (2000, 1, 1)
   \<and> extract_date_from_dirname (py ''no-date-dir'') = Inr (2000, 1, 1)"
proof -
  have "re_search_date (py ''x2024-03-01-a'') = Some (ymd_text 2024 3 1)"
    by (simp add: date_eval)
  then obtain pre post where m1: "leftmost_date_match (py ''x2024-03-01-a'') pre (ymd_text 2024 3 1) post"
    unfolding re_search_date_Some by blast
  have "re_search_date (py ''2024-02-30'') = Some (ymd_text 2024 2 30)"
    by (simp add: date_eval)
  then obtain pre' post' where m2: "leftmost_date_match (py ''2024-02-30'') pre' (ymd_text 2024 2 30) post'"
    unfolding re_search_date_Some by blast
  have "re_search_date (py ''no-date-dir'') = None"
    by (simp add: date_eval)
  then have m3: "\<nexists>pre t post. py ''no-date-dir'' = pre @ t @ post \<and> matches_shape date_shape t"
    unfolding re_search_date_None .
  have v1: "valid_date 2024 3 1" and v2: "\<not> valid_date 2024 2 30"
    by (simp_all add: valid_date_def days_in_month_def is_leap_def)
  from extract_date_leftmost[of "py ''x2024-03-01-a''"] m1 v1
  have "extract_date_from_dirname (py ''x2024-03-01-a'') = Inr (2024, 3, 1)" by fastforce
  moreover from extract_date_leftmost[of "py ''2024-02-30''"] m2 v2
  have "extract_date_from_dirname (py ''2024-02-30'') = Inr (2000, 1, 1)" by fastforce
  moreover from extract_date_leftmost[of "py ''no-date-dir''"] m3
  have "extract_date_from_dirname (py ''no-date-dir'') = Inr (2000, 1, 1)" by blast
  ultimately show ?thesis by blast
qed

lemmas tree_eval = py_def soup_of_fragment_def has_tag_def is_footer_def email_patterns_def
  author_patterns_def re_email_placeholder_def strip_def is_space_def find_tag_def
  str_attrs_def void_tags_def

lemma positions_footer_example:
  "positions [py ''p''] footer_example =
    [([0, 0, 0, 0], Element (py ''p'') [] [Text (py ''one'')]),
     ([0, 0, 0, 1], Element (py ''p'') [] [Text (py ''two'')]),
     ([0, 0, 0, 2], Element (py ''p'') [] [Text (py ''three'')]),
     ([0, 0, 0, 3], Element (py ''p'') [] [Text [0x5173, 0x6CE8]])]"
  by (simp add: footer_example_def tree_eval)

lemma is_footer_follow: "is_footer (Element (py ''p'') [] [Text [0x5173, 0x6CE8]])"
  by (simp add: tree_eval)

lemma not_footer_three: "\<not> is_footer (Element (py ''p'') [] [Text (py ''three'')])"
  by (simp add: tree_eval)

lemma remove_footer_example:
  "remove_footer_elements footer_example = soup_of_fragment (Element (py ''div'') [(py ''id'', py ''js_content'')]
     [Element (py ''p'') [] [Text (py ''one'')],
      Element (py ''p'') [] [Text (py ''two'')],
      Element (py ''p'') [] [Text (py ''three'')]])"
  unfolding remove_footer_elements_def positions_footer_example
  by (simp add: is_footer_follow not_footer_three) (simp add: footer_example_def soup_of_fragment_def)

lemma positions_after_footer_example:
  "positions [py ''p''] (remove_footer_elements footer_example) =
    [([0, 0, 0, 0], Element (py ''p'') [] [Text (py ''one'')]),
     ([0, 0, 0, 1], Element (py ''p'') [] [Text (py ''two'')]),
     ([0, 0, 0, 2], Element (py ''p'') [] [Text (py ''three'')])]"
  unfolding remove_footer_example by (simp add: tree_eval)

text \<open>The amended claim C3 at the container of four paragraphs.\<close>

theorem footer_stripper_suffix_witness:
  "length (positions [py ''p''] footer_example) = 4
   \<and> length (positions [py ''p''] (remove_footer_elements footer_example)) = 3
   \<and> is_footer (snd (positions [py ''p''] footer_example ! 3))
   \<and> \<not> is_footer (snd (positions [py ''p''] footer_example ! 2))
   \<and> positions [py ''p''] (remove_footer_elements footer_example) ! 2 = positions [py ''p''] footer_example ! 2"
proof -
  let ?ps = "positions [py ''p''] footer_example"
  let ?rs = "positions [py ''p''] (remove_footer_elements footer_example)"
  have l1: "length ?ps = 4" and l2: "length ?rs = 3"
    by (simp_all add: positions_footer_example positions_after_footer_example)
  have np: "\<forall>i. length ?rs \<le> i \<and> i < length ?ps \<longrightarrow> \<not> strict_prefix (fst (?ps ! 2)) (fst (?ps ! i))"
  proof (intro allI impI)
    fix i assume "length ?rs \<le> i \<and> i < length ?ps"
    then have "i = 3" using l1 l2 by simp
    then show "\<not> strict_prefix (fst (?ps ! 2)) (fst (?ps ! i))"
      by (simp add: positions_footer_example)
  qed
  note suffix = footer_stripper_suffix[of footer_example]
  from suffix l1 l2 have a: "is_footer (snd (?ps ! 3))" by simp
  from suffix l1 l2 have b: "\<not> is_footer (snd (?ps ! 2))" by simp
  from suffix l2 np have c: "?rs ! 2 = ?ps ! 2" by simp
  from l1 l2 a b c show ?thesis by blast
qed

lemma positions_nested_example:
  "positions [py ''p''] nested_example =
    [([0, 0, 0, 0], Element (py ''p'') [] [Text (py ''one'')]),
     ([0, 0, 0, 1], Element (py ''p'') [] [Text (py ''two'')]),
     ([0, 0, 0, 2], Element (py ''p'') [] [Text (py ''three''),
        Element (py ''object'') [] [Element (py ''p'') [] [Element (py ''img'') [] []]]]),
     ([0, 0, 0, 2, 1, 0], Element (py ''p'') [] [Element (py ''img'') [] []])]"
  by (simp add: nested_example_def tree_eval)

lemma is_footer_picture: "is_footer (Element (py ''p'') [] [Element (py ''img'') [] []])"
  by (simp add: tree_eval)

lemma not_footer_outer:
  "\<not> is_footer (Element (py ''p'') [] [Text (py ''three''),
        Element (py ''object'') [] [Element (py ''p'') [] [Element (py ''img'') [] []]]])"
  by (simp add: tree_eval)

lemma remove_nested_example:
  "remove_footer_elements nested_example = soup_of_fragment (Element (py ''div'') [(py ''id'', py ''js_content'')]
     [Element (py ''p'') [] [Text (py ''one'')],
      Element (py ''p'') [] [Text (py ''two'')],
      Element (py ''p'') [] [Text (py ''three''), Element (py ''object'') [] []]])"
  unfolding remove_footer_elements_def positions_nested_example
  by (simp add: is_footer_picture not_footer_outer) (simp add: nested_example_def soup_of_fragment_def)

text \<open>
  Claim C3 as it is stated fails at the container with the nested paragraph: the scan
  removes the picture paragraph and stops at the third paragraph, which matches no
  heuristic, and that paragraph is not the element it was: the picture paragraph was
  inside it.
\<close>

theorem footer_stripper_counterexample:
  "\<not> is_footer (snd (positions [py ''p''] nested_example ! 2))
   \<and> is_footer (snd (positions [py ''p''] nested_example ! 3))
   \<and> length (positions [py ''p''] (remove_footer_elements nested_example)) = 3
   \<and> snd (positions [py ''p''] (remove_footer_elements nested_example) ! 2)
       \<noteq> snd (positions [py ''p''] nested_example ! 2)"
  unfolding remove_nested_example positions_nested_example
  by (simp add: is_footer_picture not_footer_outer) (simp add: tree_eval)

text \<open>Claim C4 at the container of two paragraphs whose second one is an author line.\<close>

theorem footer_stripper_skipped_witness:
  "length (find_all [py ''p''] short_example) = 2
   \<and> is_footer (find_all [py ''p''] short_example ! 1)
   \<and> remove_footer_elements short_example = short_example"
proof -
  have fa: "find_all [py ''p''] short_example =
      [Element (py ''p'') [] [Text (py ''one'')], Element (py ''p'') [] [Text (py ''Buddhavamsa'')]]"
    by (simp add: short_example_def find_all_def tree_eval)
  have f: "is_footer (Element (py ''p'') [] [Text (py ''Buddhavamsa'')])"
    by (simp add: tree_eval)
  have "length (find_all [py ''p''] short_example) < 3" by (simp add: fa)
  then have "remove_footer_elements short_example = short_example"
    by (rule footer_stripper_skipped)
  with fa f show ?thesis by simp
qed

lemmas fs_eval = example_fs_def path_join_def path_exists_def path_isdir_def listdir_def
  read_text_def read_bytes_def startswith_def is_article_dir_def

lemma date_of_names:
  "date_of (py ''2024-03-01-a'') = (2024, 3, 1)" "date_of (py ''no-date-dir'') = (2000, 1, 1)"
  by (simp_all add: date_of_def date_eval)

lemma walker_example:
  "process_directory example_fs (py ''/r'') =
     Inr [(py ''no-date-dir'', py ''/r/no-date-dir''), (py ''2024-03-01-a'', py ''/r/2024-03-01-a'')]"
proof -
  have l: "example_fs (py ''/r'') = Some (Dir [py ''2024-03-01-a'', py ''no-date-dir'', py ''.git'', py ''notes.txt''])"
    by (simp add: example_fs_def py_def)
  have f: "filter (is_article_dir example_fs (py ''/r''))
      [py ''2024-03-01-a'', py ''no-date-dir'', py ''.git'', py ''notes.txt'']
      = [py ''2024-03-01-a'', py ''no-date-dir'']"
    by (simp add: fs_eval py_def)
  show ?thesis
    unfolding process_directory_eq[of example_fs "py ''/r''", OF l] f
    by (simp add: date_of_names) (simp add: fs_eval py_def)
qed

lemma date_of_walker_names:
  "date_of (py ''zeta'') = (2000, 1, 1)" "date_of (py ''alpha'') = (2000, 1, 1)"
  by (simp_all add: date_of_def date_eval)

lemma walker_fs_listing:
  "walker_fs (py ''/w'') = Some (Dir [py ''zeta'', py ''2024-03-01-a'', py ''alpha''])"
  by (simp add: walker_fs_def py_def)

lemma walker_fs_result:
  "process_directory walker_fs (py ''/w'') =
     Inr [(py ''zeta'', py ''/w/zeta''), (py ''alpha'', py ''/w/alpha''), (py ''2024-03-01-a'', py ''/w/2024-03-01-a'')]"
proof -
  have f: "filter (is_article_dir walker_fs (py ''/w'')) [py ''zeta'', py ''2024-03-01-a'', py ''alpha'']
      = [py ''zeta'', py ''2024-03-01-a'', py ''alpha'']"
    by (simp add: walker_fs_def path_join_def path_exists_def path_isdir_def startswith_def
        is_article_dir_def py_def)
  show ?thesis
    unfolding process_directory_eq[of walker_fs "py ''/w''", OF walker_fs_listing] f
    by (simp add: date_of_names date_of_walker_names) (simp add: path_join_def startswith_def py_def)
qed

text \<open>
  Claim C9 at a source root whose listing is \<^verbatim>\<open>zeta\<close>, \<^verbatim>\<open>2024-03-01-a\<close>, \<^verbatim>\<open>alpha\<close>: the two
  names without a date come first, in the order of the listing.
\<close>

theorem directory_walker_witness:
  "process_directory walker_fs (py ''/w'') =
     Inr [(py ''zeta'', py ''/w/zeta''), (py ''alpha'', py ''/w/alpha''), (py ''2024-03-01-a'', py ''/w/2024-03-01-a'')]
   \<and> sorted (map (\<lambda>x. date_of (fst x))
        [(py ''zeta'', py ''/w/zeta''), (py ''alpha'', py ''/w/alpha''), (py ''2024-03-01-a'', py ''/w/2024-03-01-a'')])"
proof -
  from directory_walker[of walker_fs "py ''/w''", OF walker_fs_listing] obtain all_dirs where
    pd: "process_directory walker_fs (py ''/w'') = Inr all_dirs"
    and so: "sorted (map (\<lambda>x. date_of (fst x)) all_dirs)"
    by blast
  from pd have "all_dirs = [(py ''zeta'', py ''/w/zeta''), (py ''alpha'', py ''/w/alpha''),
      (py ''2024-03-01-a'', py ''/w/2024-03-01-a'')]"
    unfolding walker_fs_result by simp
  with pd so show ?thesis by simp
qed

lemma clean_plain_page:
  "clean_html_content example_lxml imgs markup = ([], py ''<p>Content not found</p>'', imgs)"
  by (simp add: clean_html_content_def example_lxml_def plain_page_def clean_soup_def
      unwanted_tags_def is_comment_string_def extract_title_def processed_content_def
      find_content_div_def has_id_def has_class_def attr_get_def tree_eval startswith_def)

lemma process_html_file_example:
  assumes "dir_info = (py ''no-date-dir'', py ''/r/no-date-dir'') \<or> dir_info = (py ''2024-03-01-a'', py ''/r/2024-03-01-a'')"
  shows "\<exists>ch. process_html_file example_lxml example_fs dir_info k self
     = Inr (self\<lparr>image_files_to_process := []\<rparr>, Some (ch, fst dir_info))"
  using assms
  by (auto simp: process_html_file_def clean_plain_page Let_def fs_eval py_def)

lemma process_articles_example:
  "\<exists>self' tc'. process_articles example_lxml example_fs 0
      [(py ''no-date-dir'', py ''/r/no-date-dir''), (py ''2024-03-01-a'', py ''/r/2024-03-01-a'')] (self, tc)
      = Inr (self', tc')"
proof -
  obtain ch1 where p1: "process_html_file example_lxml example_fs (py ''no-date-dir'', py ''/r/no-date-dir'') (0 + 1) self
     = Inr (self\<lparr>image_files_to_process := []\<rparr>, Some (ch1, py ''no-date-dir''))"
    using process_html_file_example[of "(py ''no-date-dir'', py ''/r/no-date-dir'')" "0 + 1" self] by auto
  define self1 where "self1 = (add_item (Html ch1) (self\<lparr>image_files_to_process := []\<rparr>))\<lparr>
      chapters := chapters (add_item (Html ch1) (self\<lparr>image_files_to_process := []\<rparr>)) @ [ch1],
      spine := spine (add_item (Html ch1) (self\<lparr>image_files_to_process := []\<rparr>)) @ [SpineItem ch1],
      toc := toc (add_item (Html ch1) (self\<lparr>image_files_to_process := []\<rparr>)) @ [\<lparr>href = file_name ch1, link_title = py ''no-date-dir'',
                                                  link_uid = py ''chapter_'' @ str_nat (0 + 1)\<rparr>]\<rparr>"
  obtain ch2 where p2: "process_html_file example_lxml example_fs (py ''2024-03-01-a'', py ''/r/2024-03-01-a'') (0 + 1 + 1) self1
     = Inr (self1\<lparr>image_files_to_process := []\<rparr>, Some (ch2, py ''2024-03-01-a''))"
    using process_html_file_example[of "(py ''2024-03-01-a'', py ''/r/2024-03-01-a'')" "0 + 1 + 1" self1] by auto
  show ?thesis
    by (simp only: process_articles.simps p1 p2 sum.case prod.case option.case Let_def self1_def[symmetric]) blast
qed

lemma create_epub_example:
  "\<exists>c. create_epub example_lxml (py ''2026-01-01'') example_fs (py ''/r'') init_converter = Inr c"
  using walker_example process_articles_example by (rule create_epub_returns)

lemma str_nat_digit: "n < 10 \<Longrightarrow> str_nat n = [48 + n]"
  by (simp add: str_nat.simps[of n])

text \<open>
  Claim C1 as it is stated fails at the example source root: the spine is not the cover,
  the page of contents and the two chapters, but \<^verbatim>\<open>nav\<close>, the page of contents, the cover
  and the two chapters.
\<close>

theorem book_spine_counterexample:
  "(case create_epub example_lxml (py ''2026-01-01'') example_fs (py ''/r'') init_converter of
      Inr c \<Rightarrow> map spine_name (book_spine (book c))
    | Inl e \<Rightarrow> [])
   = [py ''nav'', py ''toc.xhtml'', py ''cover.xhtml'', py ''chapter_1.xhtml'', py ''chapter_2.xhtml'']"
proof -
  obtain c where c: "create_epub example_lxml (py ''2026-01-01'') example_fs (py ''/r'') init_converter = Inr c"
    using create_epub_example by blast
  from create_epub_result[OF c] obtain all_dirs chs tc1 where
    pd: "process_directory example_fs (py ''/r'') = Inr all_dirs"
    and bs: "book_spine (book c) = [SpineId (py ''nav''), SpineItem (toc_page_of (tc1 @ py ''</ul>'')),
          SpineItem (cover_page (length all_dirs) (py ''2026-01-01''))] @ map SpineItem chs"
    and len: "length chs = length all_dirs"
    and each: "\<forall>j < length all_dirs.
          file_name (chs ! j) = py ''chapter_'' @ str_nat (j + 1) @ py ''.xhtml''
          \<and> (\<exists>s s'. process_html_file example_lxml example_fs (all_dirs ! j) (j + 1) s
                = Inr (s', Some (chs ! j, html_title (chs ! j))))"
    by blast
  from pd have ad: "all_dirs = [(py ''no-date-dir'', py ''/r/no-date-dir''), (py ''2024-03-01-a'', py ''/r/2024-03-01-a'')]"
    unfolding walker_example by simp
  from len ad obtain a b where chs: "chs = [a, b]"
    by (cases chs; cases "tl chs") auto
  from each ad chs have fa: "file_name a = py ''chapter_1.xhtml''"
    by (auto simp: str_nat_digit py_def)
  from each ad chs have "file_name ([a, b] ! 1) = py ''chapter_'' @ str_nat (1 + 1) @ py ''.xhtml''"
    by (auto simp del: nth_Cons_Suc One_nat_def)
  then have fb: "file_name b = py ''chapter_2.xhtml''"
    by (simp add: str_nat_digit py_def)
  show ?thesis
    unfolding c by (simp add: bs chs fa fb spine_name_def toc_page_of_def cover_page_def)
qed

text \<open>The amended claim C1 at the example source root.\<close>

theorem book_spine_and_navigation_witness:
  "(case create_epub example_lxml (py ''2026-01-01'') example_fs (py ''/r'') init_converter of
      Inr c \<Rightarrow> length (book_spine (book c)) = 5 \<and> hd (book_spine (book c)) = SpineId (py ''nav'')
        \<and> length (book_toc (book c)) = 3 \<and> href (hd (book_toc (book c))) = py ''toc.xhtml''
    | Inl e \<Rightarrow> False)"
proof -
  obtain c where c: "create_epub example_lxml (py ''2026-01-01'') example_fs (py ''/r'') init_converter = Inr c"
    using create_epub_example by blast
  from book_spine_and_navigation[OF c] obtain all_dirs chs x y where
    pd: "process_directory example_fs (py ''/r'') = Inr all_dirs"
    and bs: "book_spine (book c) = [SpineId (py ''nav''), x, y] @ map SpineItem chs"
    and len: "length chs = length all_dirs"
    and bt: "book_toc (book c) =
        \<lparr>href = py ''toc.xhtml'', link_title = [30446, 24405], link_uid = py ''toc''\<rparr> # chapter_links 0 chs"
    by blast
  from pd have ad: "length all_dirs = 2"
    unfolding walker_example by auto
  from len ad obtain a b where chs: "chs = [a, b]"
    by (cases chs; cases "tl chs") auto
  show ?thesis
    unfolding c by (simp add: bs bt chs)
qed

lemmas soup_eval = tree_eval find_all_def attr_get_def node_attrs_def get_attr_def startswith_def
  format_img_def process_img_def basename_def img_sources_def

lemma find_all_img_example:
  "find_all [py ''img''] img_example =
    [Element (py ''img'') [(py ''class'', py ''pic''), (py ''src'', py ''./assets/x.png''), (py ''width'', py ''3'')] [],
     Element (py ''img'') [(py ''src'', py ''http://e/y.png''), (py ''style'', py ''color: red''), (py ''alt'', py ''y'')] []]"
  by (simp add: img_example_def soup_eval)

text \<open>Claim C10 at the container with two pictures.\<close>

theorem image_attributes_witness:
  "find_all [py ''img''] (map_attrs format_img img_example) =
     [Element (py ''img'') [(py ''src'', py ''x.png'')] [],
      Element (py ''img'') [(py ''src'', py ''http://e/y.png''), (py ''alt'', py ''y'')] []]
   \<and> img_sources img_example = [py ''./assets/x.png'']"
proof -
  from image_attributes[of img_example]
  have "find_all [py ''img''] (map_attrs format_img img_example)
      = map (map_attrs format_img) (find_all [py ''img''] img_example)" by blast
  then have "find_all [py ''img''] (map_attrs format_img img_example) =
     [Element (py ''img'') [(py ''src'', py ''x.png'')] [],
      Element (py ''img'') [(py ''src'', py ''http://e/y.png''), (py ''alt'', py ''y'')] []]"
    unfolding find_all_img_example by (simp add: format_img_def process_img_def get_attr_def startswith_def basename_def py_def)
  moreover have "img_sources img_example = [py ''./assets/x.png'']"
    unfolding img_sources_def find_all_img_example by (simp add: attr_get_def startswith_def py_def)
  ultimately show ?thesis by blast
qed

text \<open>Claim C7 at the page with no container.\<close>

theorem missing_container_placeholder_witness:
  "clean_html_content example_lxml [] (py ''<p>'') = ([], py ''<p>Content not found</p>'', [])"
proof -
  have h: "\<forall>e \<in> set (descendants (example_lxml (py ''<p>''))).
      \<not> has_id (py ''js_content'') e \<and> \<not> has_class (py ''rich_media_content'') e"
    by (simp add: example_lxml_def plain_page_def has_id_def has_class_def attr_get_def)
  have t: "extract_title (clean_soup (example_lxml (py ''<p>''))) = []"
    by (simp add: example_lxml_def plain_page_def clean_soup_def unwanted_tags_def
        is_comment_string_def extract_title_def tree_eval startswith_def)
  from missing_container_placeholder[of example_lxml "py ''<p>''" "[]", OF h] t
  show ?thesis by simp
qed

text \<open>
  Claim C8 fails on the code: the script element of the page is removed, the comment of
  its container is not. The string that the search for comments tests is the comment's
  text without the markers, so it does not start with \<^verbatim>\<open><!--\<close>, and the comment is in
  the cleaned markup.
\<close>

theorem comments_survive_cleaning:
  "clean_html_content (\<lambda>markup. comment_page) [] (py ''<html>'') =
     ([], py ''<html><body><div id='' @ [34] @ py ''js_content'' @ [34] @ py ''><p>one</p><!-- note --></div></body></html>'', [])"
  by (simp add: clean_html_content_def comment_page_def clean_soup_def unwanted_tags_def
      is_comment_string_def extract_title_def processed_content_def find_content_div_def
      has_id_def has_class_def remove_footer_elements_def preserve_formatting_def
      format_p_def format_h_def heading_tags_def opens_with_p_def str_soup_def
      quoted_attribute_value_def p_style_def new_style_def AList.delete_eq soup_eval)

lemma find_all_p_style_example:
  "find_all [py ''p''] (soup_of_fragment style_example) =
     [Element (py ''p'') [(py ''style'', py ''color:red;text-align:center'')] [Text (py ''a'')],
      Element (py ''p'') [(py ''style'', py ''color:red'')] [Text (py ''b'')]]"
  by (simp add: style_example_def soup_of_fragment_def find_all_def has_tag_def py_def)

lemma find_all_h_style_example:
  "find_all heading_tags (soup_of_fragment style_example) =
     [Element (py ''h2'') [(py ''style'', py ''color:red'')] [Text (py ''c'')]]"
  by (simp add: style_example_def soup_of_fragment_def find_all_def has_tag_def heading_tags_def py_def)

lemma new_style_example_align:
  "new_style (py ''color:red;text-align:center'') = [py ''text-align: center'']"
  by (simp add: new_style_def py_def is_space_def)

lemma new_style_example_none: "new_style (py ''color:red'') = []"
  by (simp add: new_style_def py_def)

lemma new_style_example_bold: "new_style (py ''font-weight:bold'') = [py ''font-weight: bold'']"
  by (simp add: new_style_def py_def)

text \<open>Claim C5 at the container with two paragraphs and a heading.\<close>

theorem style_normalizer_witness:
  "map node_attrs (find_all [py ''p''] (preserve_formatting style_example))
     = [[(py ''style'', py ''text-align: center'')], []]
   \<and> css_properties (py ''text-align: center'') = [py ''text-align'']
   \<and> str_in (py ''font-weight'') (py ''font-weight:bold'')
   \<and> map (\<lambda>h. attr_get h (py ''style'')) (find_all heading_tags (preserve_formatting style_example))
     = [Some (py ''text-align: center; font-weight: bold;'')]"
proof -
  let ?F = "\<lambda>e. insert_newlines (map_attrs format_h (map_attrs format_p e))"
  let ?p1 = "Element (py ''p'') [(py ''style'', py ''color:red;text-align:center'')] [Text (py ''a'')]"
  let ?p2 = "Element (py ''p'') [(py ''style'', py ''color:red'')] [Text (py ''b'')]"
  let ?h = "Element (py ''h2'') [(py ''style'', py ''color:red'')] [Text (py ''c'')]"
  note t = style_normalizer[of style_example "[(py ''style'', py ''color:red;text-align:center'')]"
      "py ''font-weight:bold''"]
  from t have ps: "find_all [py ''p''] (preserve_formatting style_example) = [?F ?p1, ?F ?p2]"
    unfolding find_all_p_style_example by simp
  from t have "\<forall>e \<in> set [?p1, ?p2]. node_attrs (?F e) = p_style (node_attrs e)"
    unfolding find_all_p_style_example by blast
  then have a: "node_attrs (?F ?p1) = [(py ''style'', py ''text-align: center'')]"
    and b: "node_attrs (?F ?p2) = []"
    by (simp_all add: node_attrs_def p_style_def get_attr_def new_style_example_align
        new_style_example_none join.simps)
  from t have bold: "str_in (py ''font-weight'') (py ''font-weight:bold'')"
    unfolding new_style_example_bold by simp
  have css: "css_properties (py ''text-align: center'') = [py ''text-align'']"
    by (simp add: css_properties_def prop_name_def strip_def is_space_def py_def)
  have hs: "find_all heading_tags (preserve_formatting style_example) = [?F ?h]"
    unfolding find_all_preserve_formatting find_all_h_style_example by simp
  from t have "\<forall>h \<in> set [?F ?h]. attr_get h (py ''style'') = Some (py ''text-align: center; font-weight: bold;'')"
    unfolding hs by blast
  then have h: "attr_get (?F ?h) (py ''style'') = Some (py ''text-align: center; font-weight: bold;'')"
    by simp
  show ?thesis
    unfolding ps hs using a b bold css h by simp
qed

lemmas picture_eval = picture_fs_def path_join_def path_exists_def path_isdir_def read_text_def
  read_bytes_def startswith_def

lemma picture_soup:
  "processed_content (clean_soup picture_page) =
     Some (Element (py ''[document]'') [] [Element (py ''html'') [] [Element (py ''body'') []
       [Element (py ''div'') [(py ''id'', py ''js_content'')]
          [Element (py ''p'') [] [Element (py ''img'') [(py ''src'', py ''./assets/x.png'')] []],
           Text [10],
           Element (py ''p'') [] [Element (py ''img'') [(py ''src'', py ''./assets/y.png'')] []]]]]])"
  by (simp add: picture_page_def clean_soup_def unwanted_tags_def
      is_comment_string_def processed_content_def find_content_div_def
      has_id_def has_class_def remove_footer_elements_def preserve_formatting_def
      format_p_def format_h_def heading_tags_def opens_with_p_def
      p_style_def new_style_def AList.delete_eq soup_eval)

text \<open>
  Claim C6 fails for a picture outside the content container: its file exists, and the
  chapter holds no reference to it and the book no resource for it.
\<close>

theorem image_round_trip_counterexample:
  "find_all [py ''img''] outside_page = [Element (py ''img'') [(py ''src'', py ''./assets/x.png'')] []]
   \<and> read_bytes picture_fs (path_join (py ''/p/a'') (py ''./assets/x.png'')) = Inr [137, 80, 78, 71]
   \<and> process_html_file (\<lambda>markup. outside_page) picture_fs (py ''a'', py ''/p/a'') 1 init_converter
      = Inr (init_converter,
          Some (\<lparr>html_title = py ''a'', file_name = py ''chapter_1.xhtml'', lang = py ''zh-CN'',
                 content = [10] @ py ''        <h1>a</h1>'' @ [10] @ py ''        <p class='' @ [34] @
                   py ''center'' @ [34] @ py ''><strong></strong></p>'' @ [10] @
                   py ''        <html><body><div id='' @ [34] @ py ''js_content'' @ [34] @
                   py ''><p>one</p></div></body></html>'' @ [10] @ py ''        ''\<rparr>, py ''a''))"
proof -
  have a: "find_all [py ''img''] outside_page = [Element (py ''img'') [(py ''src'', py ''./assets/x.png'')] []]"
    by (simp add: outside_page_def soup_eval)
  have b: "read_bytes picture_fs (path_join (py ''/p/a'') (py ''./assets/x.png'')) = Inr [137, 80, 78, 71]"
    by (simp add: picture_eval py_def)
  have c: "clean_html_content (\<lambda>markup. outside_page) [] markup =
     ([], py ''<html><body><div id='' @ [34] @ py ''js_content'' @ [34] @ py ''><p>one</p></div></body></html>'', [])"
    for markup
    by (simp add: clean_html_content_def outside_page_def clean_soup_def unwanted_tags_def
      is_comment_string_def extract_title_def processed_content_def find_content_div_def
      has_id_def has_class_def remove_footer_elements_def preserve_formatting_def
      format_p_def format_h_def heading_tags_def opens_with_p_def str_soup_def
      quoted_attribute_value_def p_style_def new_style_def AList.delete_eq soup_eval)
  have d: "date_str_of [97] = []"
    by (simp add: date_str_of_def matches_shape_def date_shape_def is_digit_def digit_value_def nd_starts_def is_hyphen_def py_def)
  have e: "process_html_file (\<lambda>markup. outside_page) picture_fs (py ''a'', py ''/p/a'') 1 init_converter
      = Inr (init_converter,
          Some (\<lparr>html_title = py ''a'', file_name = py ''chapter_1.xhtml'', lang = py ''zh-CN'',
                 content = [10] @ py ''        <h1>a</h1>'' @ [10] @ py ''        <p class='' @ [34] @
                   py ''center'' @ [34] @ py ''><strong></strong></p>'' @ [10] @
                   py ''        <html><body><div id='' @ [34] @ py ''js_content'' @ [34] @
                   py ''><p>one</p></div></body></html>'' @ [10] @ py ''        ''\<rparr>, py ''a''))"
    by (simp add: process_html_file_def c d Let_def picture_eval init_converter_def str_nat_digit py_def)
  from a b e show ?thesis by blast
qed


lemma picture_sources:
  "img_sources (Element (py ''[document]'') [] [Element (py ''html'') [] [Element (py ''body'') []
       [Element (py ''div'') [(py ''id'', py ''js_content'')]
          [Element (py ''p'') [] [Element (py ''img'') [(py ''src'', py ''./assets/x.png'')] []],
           Text [10],
           Element (py ''p'') [] [Element (py ''img'') [(py ''src'', py ''./assets/y.png'')] []]]]]])
     = [py ''./assets/x.png'', py ''./assets/y.png'']"
  by (simp add: soup_eval)

lemma picture_images:
  "find_all [py ''img''] (Element (py ''[document]'') [] [Element (py ''html'') [] [Element (py ''body'') []
       [Element (py ''div'') [(py ''id'', py ''js_content'')]
          [Element (py ''p'') [] [Element (py ''img'') [(py ''src'', py ''./assets/x.png'')] []],
           Text [10],
           Element (py ''p'') [] [Element (py ''img'') [(py ''src'', py ''./assets/y.png'')] []]]]]])
     = [Element (py ''img'') [(py ''src'', py ''./assets/x.png'')] [],
        Element (py ''img'') [(py ''src'', py ''./assets/y.png'')] []]"
  by (simp add: soup_eval)

lemma picture_item:
  "image_item picture_fs (py ''/p/a'') 1 (py ''./assets/x.png'') =
     \<lparr>item_uid = py ''image_1_x.png'', item_file_name = py ''images/x.png'',
      media_type = py ''image/png'', item_content = [137, 80, 78, 71]\<rparr>"
  by (simp add: image_item_def str_nat_digit basename_def media_type_of_def splitext_ext_def
      lower_def Let_def picture_eval py_def)

text \<open>
  Claim C6 at the container with two pictures: the file of the first exists, the file of
  the second does not.
\<close>

theorem image_round_trip_witness:
  "\<exists>self' ch t.
     process_html_file (\<lambda>markup. picture_page) picture_fs (py ''a'', py ''/p/a'') 1 init_converter
       = Inr (self', Some (ch, t))
     \<and> items (book self') = items (book init_converter) @
          [Item \<lparr>item_uid = py ''image_1_x.png'', item_file_name = py ''images/x.png'',
                 media_type = py ''image/png'', item_content = [137, 80, 78, 71]\<rparr>]
     \<and> str_in (src_attr (py ''images/x.png'')) (content ch)
     \<and> str_in (src_attr (py ''y.png'')) (content ch)"
proof -
  let ?soup0 = "Element (py ''[document]'') [] [Element (py ''html'') [] [Element (py ''body'') []
       [Element (py ''div'') [(py ''id'', py ''js_content'')]
          [Element (py ''p'') [] [Element (py ''img'') [(py ''src'', py ''./assets/x.png'')] []],
           Text [10],
           Element (py ''p'') [] [Element (py ''img'') [(py ''src'', py ''./assets/y.png'')] []]]]]]"
  have r: "read_text picture_fs (path_join (py ''/p/a'') (py ''index.html'')) = Inr (py ''<p>'')"
    by (simp add: picture_eval py_def)
  have f: "\<forall>p \<in> set (img_sources ?soup0). \<not> path_isdir picture_fs (path_join (py ''/p/a'') p)"
    unfolding picture_sources by (simp add: picture_eval py_def)
  have em: "embedded picture_fs (py ''/p/a'') ?soup0 = [py ''./assets/x.png'']"
    unfolding embedded_def picture_sources by (simp add: picture_eval py_def)
  have pl: "\<forall>p \<in> set (img_sources ?soup0). plain_name (basename p)"
    unfolding picture_sources by (simp add: plain_name_def basename_def py_def)
  have bx: "basename (py ''./assets/x.png'') = py ''x.png''"
    and bn_y: "basename (py ''./assets/y.png'') = py ''y.png''"
    by (simp_all add: basename_def py_def)
  have ne: "py ''x.png'' \<noteq> py ''y.png''" by (simp add: py_def)
  have cat: "py ''images/'' @ py ''x.png'' = py ''images/x.png''" by (simp add: py_def)
  from image_round_trip[of picture_fs "py ''/p/a''" "py ''<p>''" "\<lambda>markup. picture_page" ?soup0
      "py ''a''" 1 init_converter, OF r picture_soup f]
  obtain self' ch t where
    res: "process_html_file (\<lambda>markup. picture_page) picture_fs (py ''a'', py ''/p/a'') 1 init_converter
       = Inr (self', Some (ch, t))"
    and it: "items (book self') = items (book init_converter) @
          map (\<lambda>p. Item (image_item picture_fs (py ''/p/a'') 1 p)) (embedded picture_fs (py ''/p/a'') ?soup0)"
    and body: "\<forall>e \<in> set (find_all [py ''img''] ?soup0). \<forall>s.
           attr_get e (py ''src'') = Some s \<and> startswith s (py ''./assets/'') \<longrightarrow>
           str_in (src_attr (if \<exists>p \<in> set (embedded picture_fs (py ''/p/a'') ?soup0). basename p = basename s
                             then py ''images/'' @ basename s else basename s)) (content ch)"
    using pl by blast
  from it have 1: "items (book self') = items (book init_converter) @
          [Item \<lparr>item_uid = py ''image_1_x.png'', item_file_name = py ''images/x.png'',
                 media_type = py ''image/png'', item_content = [137, 80, 78, 71]\<rparr>]"
    unfolding em list.map picture_item .
  have sx: "attr_get (Element (py ''img'') [(py ''src'', py ''./assets/x.png'')] []) (py ''src'') = Some (py ''./assets/x.png'')
      \<and> startswith (py ''./assets/x.png'') (py ''./assets/'')"
    and sy: "attr_get (Element (py ''img'') [(py ''src'', py ''./assets/y.png'')] []) (py ''src'') = Some (py ''./assets/y.png'')
      \<and> startswith (py ''./assets/y.png'') (py ''./assets/'')"
    by (simp_all add: attr_get_def startswith_def py_def)
  from body sx have 2: "str_in (src_attr (py ''images/x.png'')) (content ch)"
    unfolding picture_images em by (auto simp: bx cat)
  from body sy have 3: "str_in (src_attr (py ''y.png'')) (content ch)"
    unfolding picture_images em using ne by (auto simp: bx bn_y)
  from res 1 2 3 show ?thesis by blast
qed


end
